theory Spec2Isabelle
  imports Complex_Main "HOL-Library.Sublist"
begin

section \<open>JavaScript values\<close>

text \<open>
  The path query of \<^verbatim>\<open>utensils.js\<close> (\<^verbatim>\<open>getValuesFromObjectByPath\<close> and
  \<^verbatim>\<open>traverseBasedOnPath\<close>) works on a JSON-like document: objects, arrays,
  strings, numbers, booleans and \<^verbatim>\<open>null\<close>, plus \<^verbatim>\<open>undefined\<close>, which the
  functions produce. A number is a finite value (a rational: JSON has no NaN and no
  infinity); a string is its sequence of code units; an array is dense; an object is its
  list of own properties in insertion order, read by the first entry of a key.
  \<open>JHost\<close> is a value of the host that is not JSON data, under a name: a built-in
  function or prototype object, which a document does not contain but which a read of an
  inherited property returns (see the section on inherited properties).
\<close>

datatype jsval =
    JUndefined
  | JNull
  | JBool bool
  | JNum rat
  | JStr string
  | JArr "jsval list"
  | JObj "(string \<times> jsval) list"
  | JHost string

text \<open>The only exception the two functions could meet is a \<^verbatim>\<open>TypeError\<close>: reading a
  property of \<^verbatim>\<open>null\<close> or \<^verbatim>\<open>undefined\<close>, or calling \<^verbatim>\<open>map\<close>,
  \<^verbatim>\<open>filter\<close> or \<^verbatim>\<open>flat\<close> on a value that has no such method, or reading an
  inherited accessor that throws one.\<close>

datatype error = TypeError

definition ebind :: "error + 'a \<Rightarrow> ('a \<Rightarrow> error + 'b) \<Rightarrow> error + 'b" where
  "ebind m f = (case m of Inl e \<Rightarrow> Inl e | Inr x \<Rightarrow> f x)"

text \<open>\<^verbatim>\<open>Array.isArray\<close>.\<close>

fun isArray :: "jsval \<Rightarrow> bool" where
  "isArray (JArr xs) = True"
| "isArray v = False"

text \<open>\<^verbatim>\<open>Boolean(v)\<close>: the falsy values are \<^verbatim>\<open>undefined\<close>, \<^verbatim>\<open>null\<close>,
  \<^verbatim>\<open>false\<close>, zero and the empty string; every array and object is truthy, a
  built-in function or object too.\<close>

fun Boolean :: "jsval \<Rightarrow> bool" where
  "Boolean JUndefined = False"
| "Boolean JNull = False"
| "Boolean (JBool b) = b"
| "Boolean (JNum n) = (n \<noteq> 0)"
| "Boolean (JStr s) = (s \<noteq> [])"
| "Boolean (JArr xs) = True"
| "Boolean (JObj kvs) = True"
| "Boolean (JHost h) = True"

subsection \<open>Property reads\<close>

text \<open>An array index is the canonical decimal numeral of a natural number: digits only,
  no leading zero except for \<^verbatim>\<open>"0"\<close> itself.\<close>

definition is_digit :: "char \<Rightarrow> bool" where
  "is_digit c = (c \<in> set ''0123456789'')"

definition digit_val :: "char \<Rightarrow> nat" where
  "digit_val c = of_char c - 48"

definition array_index :: "string \<Rightarrow> nat option" where
  "array_index k =
     (if k \<noteq> [] \<and> list_all is_digit k \<and> (k = ''0'' \<or> hd k \<noteq> CHR ''0'')
      then Some (foldl (\<lambda>n c. 10 * n + digit_val c) 0 k) else None)"

text \<open>
  \<^verbatim>\<open>v[k]\<close> on a value that is neither \<^verbatim>\<open>null\<close> nor \<^verbatim>\<open>undefined\<close>, for the
  properties the data itself carries: the keys of an object, the elements and the
  \<^verbatim>\<open>length\<close> of an array, the code units and the \<^verbatim>\<open>length\<close> of a string. A
  number and a boolean carry none. Every other key reads as \<^verbatim>\<open>undefined\<close> here.
  The code reads inherited properties too: under a name that a value inherits from a
  built-in prototype (\<^verbatim>\<open>constructor\<close>, \<^verbatim>\<open>toString\<close>, ...) the read returns
  an object of the host, or raises when the property is an accessor that throws. Those
  reads are modelled in the section on inherited properties, where
  \<open>own_property_reads_suffice\<close> shows that the functions on own properties compute
  what the code computes on every JSON document for every path none of whose segments is
  the name of an inherited property.
\<close>

fun own_prop :: "jsval \<Rightarrow> string \<Rightarrow> jsval" where
  "own_prop (JObj kvs) k = (case map_of kvs k of Some v \<Rightarrow> v | None \<Rightarrow> JUndefined)"
| "own_prop (JArr xs) k =
     (if k = ''length'' then JNum (of_nat (length xs))
      else case array_index k of
        Some i \<Rightarrow> (if i < length xs then xs ! i else JUndefined)
      | None \<Rightarrow> JUndefined)"
| "own_prop (JStr s) k =
     (if k = ''length'' then JNum (of_nat (length s))
      else case array_index k of
        Some i \<Rightarrow> (if i < length s then JStr [s ! i] else JUndefined)
      | None \<Rightarrow> JUndefined)"
| "own_prop v k = JUndefined"

text \<open>\<^verbatim>\<open>v[k]\<close> raises on \<^verbatim>\<open>null\<close> and \<^verbatim>\<open>undefined\<close>; the optional chain
  \<^verbatim>\<open>v?.[k]\<close> yields \<^verbatim>\<open>undefined\<close> there and is \<^verbatim>\<open>v[k]\<close> otherwise.\<close>

definition get_prop :: "jsval \<Rightarrow> string \<Rightarrow> error + jsval" where
  "get_prop v k = (if v = JUndefined \<or> v = JNull then Inl TypeError else Inr (own_prop v k))"

definition opt_get :: "jsval \<Rightarrow> string \<Rightarrow> error + jsval" where
  "opt_get v k = (if v = JUndefined \<or> v = JNull then Inr JUndefined else get_prop v k)"

text \<open>The value of \<^verbatim>\<open>v?.[k]\<close>.\<close>

definition chained :: "jsval \<Rightarrow> string \<Rightarrow> jsval" where
  "chained v k = (if v = JUndefined \<or> v = JNull then JUndefined else own_prop v k)"

subsection \<open>Array methods\<close>

text \<open>Each method exists on arrays only: on any other JSON value the call raises.
  \<^verbatim>\<open>map\<close> stops at the first callback that raises.\<close>

fun map_err :: "('a \<Rightarrow> error + 'b) \<Rightarrow> 'a list \<Rightarrow> error + 'b list" where
  "map_err f [] = Inr []"
| "map_err f (x # xs) =
     (case f x of
        Inl e \<Rightarrow> Inl e
      | Inr y \<Rightarrow> (case map_err f xs of Inl e \<Rightarrow> Inl e | Inr ys \<Rightarrow> Inr (y # ys)))"

fun js_map :: "(jsval \<Rightarrow> error + jsval) \<Rightarrow> jsval \<Rightarrow> error + jsval" where
  "js_map f (JArr xs) = (case map_err f xs of Inl e \<Rightarrow> Inl e | Inr ys \<Rightarrow> Inr (JArr ys))"
| "js_map f v = Inl TypeError"

fun js_filter :: "(jsval \<Rightarrow> bool) \<Rightarrow> jsval \<Rightarrow> error + jsval" where
  "js_filter p (JArr xs) = Inr (JArr (filter p xs))"
| "js_filter p v = Inl TypeError"

text \<open>\<^verbatim>\<open>flat()\<close> with its default depth 1: an element that is an array is replaced by
  its elements, any other element is kept.\<close>

fun flatten_into :: "jsval list \<Rightarrow> jsval list" where
  "flatten_into [] = []"
| "flatten_into (JArr ys # xs) = ys @ flatten_into xs"
| "flatten_into (x # xs) = x # flatten_into xs"

fun js_flat :: "jsval \<Rightarrow> error + jsval" where
  "js_flat (JArr xs) = Inr (JArr (flatten_into xs))"
| "js_flat v = Inl TypeError"

text \<open>What one element contributes to a one-level flattening: its own elements when it
  is an array, itself otherwise.\<close>

definition elements :: "jsval \<Rightarrow> jsval list" where
  "elements x = (case x of JArr ys \<Rightarrow> ys | _ \<Rightarrow> [x])"

text \<open>\<^verbatim>\<open>s.split('/')\<close>: the substrings between the separators. It never returns an
  empty array: the empty string splits into one empty segment.\<close>

fun split_slash :: "string \<Rightarrow> string list" where
  "split_slash [] = [[]]"
| "split_slash (c # cs) =
     (if c = CHR ''/'' then [] # split_slash cs
      else (case split_slash cs of
              [] \<Rightarrow> [[c]]
            | seg # segs \<Rightarrow> (c # seg) # segs))"

section \<open>The path query\<close>

text \<open>
  \<^verbatim>\<open>traverseBasedOnPath(obj, pathKeys)\<close>: the loop over the keys with the current
  value as its state. \<^verbatim>\<open>break\<close> leaves the loop and returns the current value;
  \<^verbatim>\<open>return undefined\<close> leaves the function.
\<close>

fun traverse_loop :: "jsval \<Rightarrow> string list \<Rightarrow> error + jsval" where
  "traverse_loop current [] = Inr current"
| "traverse_loop current (key # keys) =
     (if current = JUndefined \<or> current = JNull then Inr current
      else if key = ''[n]'' then
        (if \<not> isArray current then Inr JUndefined
         else ebind (ebind (ebind (js_map (\<lambda>item. Inr item) current)
                (js_filter Boolean)) js_flat)
                (\<lambda>current'. traverse_loop current' keys))
      else if isArray current then
        ebind (ebind (ebind (js_map (\<lambda>item. opt_get item key) current)
          (js_filter Boolean)) js_flat)
          (\<lambda>current'. traverse_loop current' keys)
      else ebind (opt_get current key) (\<lambda>current'. traverse_loop current' keys))"

definition traverseBasedOnPath :: "jsval \<Rightarrow> string list \<Rightarrow> error + jsval" where
  "traverseBasedOnPath obj pathKeys = traverse_loop obj pathKeys"

text \<open>The \<^verbatim>\<open>paths\<close> argument is one path string or an array of path strings.\<close>

datatype paths_arg = PathString string | PathArray "string list"

definition allPaths :: "paths_arg \<Rightarrow> string list list" where
  "allPaths paths =
     (case paths of
        PathArray ps \<Rightarrow> map split_slash ps
      | PathString p \<Rightarrow> [split_slash p])"

text \<open>
  The body of the loop over \<^verbatim>\<open>allPaths\<close>, as the value it pushes onto
  \<^verbatim>\<open>results\<close>, if any. \<^verbatim>\<open>pathKeys.pop()\<close> takes the last key off the array, so
  the traversal gets the keys before it.
\<close>

definition finalValue :: "jsval \<Rightarrow> string \<Rightarrow> error + jsval" where
  "finalValue valueAtPath accessor =
     (if isArray valueAtPath
      then ebind (js_map (\<lambda>item. opt_get item accessor) valueAtPath) (js_filter Boolean)
      else opt_get valueAtPath accessor)"

definition pathResult :: "jsval \<Rightarrow> string list \<Rightarrow> error + jsval option" where
  "pathResult obj pathKeys =
     (if length pathKeys = 0 then Inr None
      else
        let accessor = last pathKeys; pathKeys' = butlast pathKeys in
        ebind (traverseBasedOnPath obj pathKeys') (\<lambda>valueAtPath.
          if valueAtPath \<noteq> JUndefined then
            ebind (finalValue valueAtPath accessor) (\<lambda>v.
              if v \<noteq> JUndefined then Inr (Some v) else Inr None)
          else Inr None))"

fun collect :: "jsval \<Rightarrow> string list list \<Rightarrow> jsval list \<Rightarrow> error + jsval list" where
  "collect obj [] results = Inr results"
| "collect obj (pathKeys # rest) results =
     ebind (pathResult obj pathKeys) (\<lambda>r.
       case r of
         None \<Rightarrow> collect obj rest results
       | Some v \<Rightarrow> collect obj rest (results @ [v]))"

text \<open>\<^verbatim>\<open>results.length > 1 ? results : results[0]\<close>, where \<^verbatim>\<open>results[0]\<close> of an
  empty array is \<^verbatim>\<open>undefined\<close>.\<close>

definition returnValue :: "jsval list \<Rightarrow> jsval" where
  "returnValue results =
     (if length results > 1 then JArr results
      else (case results of [] \<Rightarrow> JUndefined | r # _ \<Rightarrow> r))"

definition getValuesFromObjectByPath :: "jsval \<Rightarrow> paths_arg \<Rightarrow> error + jsval" where
  "getValuesFromObjectByPath obj paths =
     ebind (collect obj (allPaths paths) []) (\<lambda>results. Inr (returnValue results))"

section \<open>The query on a store\<close>

text \<open>
  The tree model above cannot say which arrays a call writes to. For that the same two
  functions are modelled a second time on a store: a primitive value is held directly, an
  array or an object is a reference to a cell, and every operation that the source applies
  to an array or an object reads or writes the store. A new array takes the next free
  address; \<^verbatim>\<open>pop\<close> and \<^verbatim>\<open>push\<close> overwrite the cell of the array they are
  called on. A store may hold shared and cyclic structure.
\<close>

type_synonym addr = nat

datatype sval =
    SUndefined
  | SNull
  | SBool bool
  | SNum rat
  | SStr string
  | SRef addr

datatype cell = ArrayCell "sval list" | ObjectCell "(string \<times> sval) list"

type_synonym store = "cell list"

text \<open>A program takes the store and returns an error, or a value with the new store.\<close>

type_synonym 'a prog = "store \<Rightarrow> error + 'a \<times> store"

definition cell_at :: "store \<Rightarrow> addr \<Rightarrow> cell option" where
  "cell_at st a = (if a < length st then Some (st ! a) else None)"

definition array_at :: "store \<Rightarrow> sval \<Rightarrow> sval list option" where
  "array_at st v =
     (case v of
        SRef a \<Rightarrow> (case cell_at st a of Some (ArrayCell xs) \<Rightarrow> Some xs | _ \<Rightarrow> None)
      | _ \<Rightarrow> None)"

definition s_isArray :: "store \<Rightarrow> sval \<Rightarrow> bool" where
  "s_isArray st v = (array_at st v \<noteq> None)"

fun s_Boolean :: "sval \<Rightarrow> bool" where
  "s_Boolean SUndefined = False"
| "s_Boolean SNull = False"
| "s_Boolean (SBool b) = b"
| "s_Boolean (SNum n) = (n \<noteq> 0)"
| "s_Boolean (SStr s) = (s \<noteq> [])"
| "s_Boolean (SRef a) = True"

text \<open>The own properties of a value in the store, as \<open>own_prop\<close>. The read of an
  inherited property writes no cell; the store model leaves those reads out.\<close>

fun s_own_prop :: "store \<Rightarrow> sval \<Rightarrow> string \<Rightarrow> sval" where
  "s_own_prop st (SRef a) k =
     (case cell_at st a of
        Some (ObjectCell kvs) \<Rightarrow> (case map_of kvs k of Some v \<Rightarrow> v | None \<Rightarrow> SUndefined)
      | Some (ArrayCell xs) \<Rightarrow>
          (if k = ''length'' then SNum (of_nat (length xs))
           else case array_index k of
             Some i \<Rightarrow> (if i < length xs then xs ! i else SUndefined)
           | None \<Rightarrow> SUndefined)
      | None \<Rightarrow> SUndefined)"
| "s_own_prop st (SStr s) k =
     (if k = ''length'' then SNum (of_nat (length s))
      else case array_index k of
        Some i \<Rightarrow> (if i < length s then SStr [s ! i] else SUndefined)
      | None \<Rightarrow> SUndefined)"
| "s_own_prop st v k = SUndefined"

definition sreturn :: "'a \<Rightarrow> 'a prog" where
  "sreturn x = (\<lambda>st. Inr (x, st))"

definition sraise :: "error \<Rightarrow> 'a prog" where
  "sraise e = (\<lambda>st. Inl e)"

definition sbind :: "'a prog \<Rightarrow> ('a \<Rightarrow> 'b prog) \<Rightarrow> 'b prog" where
  "sbind m f = (\<lambda>st. case m st of Inl e \<Rightarrow> Inl e | Inr (x, st') \<Rightarrow> f x st')"

text \<open>\<^verbatim>\<open>v[k]\<close> and \<^verbatim>\<open>v?.[k]\<close>, as above.\<close>

definition s_get_prop :: "sval \<Rightarrow> string \<Rightarrow> sval prog" where
  "s_get_prop v k =
     (\<lambda>st. if v = SUndefined \<or> v = SNull then Inl TypeError else Inr (s_own_prop st v k, st))"

definition s_opt_get :: "sval \<Rightarrow> string \<Rightarrow> sval prog" where
  "s_opt_get v k = (if v = SUndefined \<or> v = SNull then sreturn SUndefined else s_get_prop v k)"

text \<open>
  \<^verbatim>\<open>map\<close>, \<^verbatim>\<open>filter\<close> and \<^verbatim>\<open>flat\<close> read the array they are called on and
  allocate the array they return. The callback of \<^verbatim>\<open>map\<close> is a program, since
  \<^verbatim>\<open>p.split('/')\<close> allocates.
\<close>

definition alloc :: "cell \<Rightarrow> sval prog" where
  "alloc c = (\<lambda>st. Inr (SRef (length st), st @ [c]))"

fun s_map_loop :: "(sval \<Rightarrow> sval prog) \<Rightarrow> sval list \<Rightarrow> (sval list) prog" where
  "s_map_loop f [] = sreturn []"
| "s_map_loop f (x # xs) =
     sbind (f x) (\<lambda>y. sbind (s_map_loop f xs) (\<lambda>ys. sreturn (y # ys)))"

definition s_map :: "(sval \<Rightarrow> sval prog) \<Rightarrow> sval \<Rightarrow> sval prog" where
  "s_map f v =
     (\<lambda>st. case array_at st v of
        None \<Rightarrow> Inl TypeError
      | Some xs \<Rightarrow> sbind (s_map_loop f xs) (\<lambda>ys. alloc (ArrayCell ys)) st)"

definition s_filter :: "(sval \<Rightarrow> bool) \<Rightarrow> sval \<Rightarrow> sval prog" where
  "s_filter p v =
     (\<lambda>st. case array_at st v of
        None \<Rightarrow> Inl TypeError
      | Some xs \<Rightarrow> alloc (ArrayCell (filter p xs)) st)"

fun s_flatten_into :: "store \<Rightarrow> sval list \<Rightarrow> sval list" where
  "s_flatten_into st [] = []"
| "s_flatten_into st (x # xs) =
     (case array_at st x of
        Some ys \<Rightarrow> ys @ s_flatten_into st xs
      | None \<Rightarrow> x # s_flatten_into st xs)"

definition s_flat :: "sval \<Rightarrow> sval prog" where
  "s_flat v =
     (\<lambda>st. case array_at st v of
        None \<Rightarrow> Inl TypeError
      | Some xs \<Rightarrow> alloc (ArrayCell (s_flatten_into st xs)) st)"

text \<open>\<^verbatim>\<open>split\<close> is a method of strings only and returns a new array.
  \<^verbatim>\<open>pop\<close> removes the last element of the array in place (an empty array stays as it
  is and gives \<^verbatim>\<open>undefined\<close>); \<^verbatim>\<open>push\<close> appends in place.\<close>

definition s_split :: "sval \<Rightarrow> sval prog" where
  "s_split p = (case p of SStr s \<Rightarrow> alloc (ArrayCell (map SStr (split_slash s))) | _ \<Rightarrow> sraise TypeError)"

definition s_pop :: "sval \<Rightarrow> sval prog" where
  "s_pop v =
     (\<lambda>st. case v of
        SRef a \<Rightarrow>
          (case cell_at st a of
             Some (ArrayCell xs) \<Rightarrow>
               (if xs = [] then Inr (SUndefined, st)
                else Inr (last xs, st[a := ArrayCell (butlast xs)]))
           | _ \<Rightarrow> Inl TypeError)
      | _ \<Rightarrow> Inl TypeError)"

definition s_push :: "sval \<Rightarrow> sval \<Rightarrow> unit prog" where
  "s_push arr x =
     (\<lambda>st. case arr of
        SRef a \<Rightarrow>
          (case cell_at st a of
             Some (ArrayCell xs) \<Rightarrow> Inr ((), st[a := ArrayCell (xs @ [x])])
           | _ \<Rightarrow> Inl TypeError)
      | _ \<Rightarrow> Inl TypeError)"

text \<open>A \<^verbatim>\<open>for ... of\<close> loop iterates the elements of an array, read when the loop
  starts: neither loop body writes to the array its loop iterates. A property key is a
  string, as \<^verbatim>\<open>split\<close> makes it; the query passes nothing else as a key or as
  the array of keys, and on anything else the model stops with the error.\<close>

definition read_array :: "sval \<Rightarrow> (sval list) prog" where
  "read_array v = (\<lambda>st. case array_at st v of None \<Rightarrow> Inl TypeError | Some xs \<Rightarrow> Inr (xs, st))"

fun the_key :: "sval \<Rightarrow> string prog" where
  "the_key (SStr k) = sreturn k"
| "the_key v = sraise TypeError"

fun s_traverse_loop :: "sval \<Rightarrow> sval list \<Rightarrow> sval prog" where
  "s_traverse_loop current [] = sreturn current"
| "s_traverse_loop current (key # keys) =
     (\<lambda>st.
        if current = SUndefined \<or> current = SNull then Inr (current, st)
        else if key = SStr ''[n]'' then
          (if \<not> s_isArray st current then Inr (SUndefined, st)
           else sbind (sbind (sbind (s_map (\<lambda>item. sreturn item) current)
                  (s_filter s_Boolean)) s_flat)
                  (\<lambda>current'. s_traverse_loop current' keys) st)
        else if s_isArray st current then
          sbind (sbind (sbind
            (s_map (\<lambda>item. sbind (the_key key) (s_opt_get item)) current)
            (s_filter s_Boolean)) s_flat)
            (\<lambda>current'. s_traverse_loop current' keys) st
        else sbind (sbind (the_key key) (s_opt_get current))
               (\<lambda>current'. s_traverse_loop current' keys) st)"

definition s_traverseBasedOnPath :: "sval \<Rightarrow> sval \<Rightarrow> sval prog" where
  "s_traverseBasedOnPath obj pathKeys =
     sbind (read_array pathKeys) (\<lambda>keys. s_traverse_loop obj keys)"

text \<open>\<^verbatim>\<open>getValuesFromObjectByPath\<close>: the array of key arrays, the empty
  \<^verbatim>\<open>results\<close> array, the loop whose body pops the accessor off \<^verbatim>\<open>pathKeys\<close> and
  pushes onto \<^verbatim>\<open>results\<close>, and the returned value.\<close>

definition s_allPaths :: "sval \<Rightarrow> sval prog" where
  "s_allPaths paths =
     (\<lambda>st. if s_isArray st paths then s_map s_split paths st
           else sbind (s_split paths) (\<lambda>pathKeys. alloc (ArrayCell [pathKeys])) st)"

definition s_finalValue :: "sval \<Rightarrow> sval \<Rightarrow> sval prog" where
  "s_finalValue valueAtPath accessor =
     (\<lambda>st. if s_isArray st valueAtPath
           then sbind (s_map (\<lambda>item. sbind (the_key accessor) (s_opt_get item)) valueAtPath)
                  (s_filter s_Boolean) st
           else sbind (the_key accessor) (s_opt_get valueAtPath) st)"

definition s_body :: "sval \<Rightarrow> sval \<Rightarrow> sval \<Rightarrow> unit prog" where
  "s_body obj results pathKeys =
     sbind (s_get_prop pathKeys ''length'') (\<lambda>len.
       if len = SNum 0 then sreturn ()
       else
         sbind (s_pop pathKeys) (\<lambda>accessor.
         sbind (s_traverseBasedOnPath obj pathKeys) (\<lambda>valueAtPath.
           if valueAtPath \<noteq> SUndefined then
             sbind (s_finalValue valueAtPath accessor) (\<lambda>v.
               if v \<noteq> SUndefined then s_push results v else sreturn ())
           else sreturn ())))"

fun s_collect :: "sval \<Rightarrow> sval \<Rightarrow> sval list \<Rightarrow> unit prog" where
  "s_collect obj results [] = sreturn ()"
| "s_collect obj results (pathKeys # rest) =
     sbind (s_body obj results pathKeys) (\<lambda>_. s_collect obj results rest)"

definition s_returnValue :: "sval \<Rightarrow> sval prog" where
  "s_returnValue results =
     sbind (read_array results) (\<lambda>rs.
       if length rs > 1 then sreturn results
       else sreturn (case rs of [] \<Rightarrow> SUndefined | r # _ \<Rightarrow> r))"

definition s_getValuesFromObjectByPath :: "sval \<Rightarrow> sval \<Rightarrow> sval prog" where
  "s_getValuesFromObjectByPath obj paths =
     sbind (s_allPaths paths) (\<lambda>allPaths.
     sbind (alloc (ArrayCell [])) (\<lambda>results.
     sbind (read_array allPaths) (\<lambda>pathKeysList.
     sbind (s_collect obj results pathKeysList) (\<lambda>_.
     s_returnValue results))))"

subsection \<open>Stores and trees\<close>

text \<open>
  \<open>repr h v t\<close>: read through the cells \<open>h\<close>, the value \<open>v\<close> is the tree
  \<open>t\<close> (deep equality with a document of the tree model). \<open>paths_repr\<close> is the
  same for the \<^verbatim>\<open>paths\<close> argument: a string, or an array of strings in the store.
\<close>

inductive repr :: "(addr \<Rightarrow> cell option) \<Rightarrow> sval \<Rightarrow> jsval \<Rightarrow> bool" for h where
  repr_undefined: "repr h SUndefined JUndefined"
| repr_null: "repr h SNull JNull"
| repr_bool: "repr h (SBool b) (JBool b)"
| repr_num: "repr h (SNum n) (JNum n)"
| repr_str: "repr h (SStr s) (JStr s)"
| repr_array: "h a = Some (ArrayCell vs) \<Longrightarrow> list_all2 (repr h) vs ts \<Longrightarrow>
     repr h (SRef a) (JArr ts)"
| repr_object: "h a = Some (ObjectCell kvs) \<Longrightarrow>
     list_all2 (\<lambda>kv kt. fst kv = fst kt \<and> repr h (snd kv) (snd kt)) kvs kts \<Longrightarrow>
     repr h (SRef a) (JObj kts)"

definition paths_repr :: "store \<Rightarrow> sval \<Rightarrow> paths_arg \<Rightarrow> bool" where
  "paths_repr st v paths =
     (case paths of
        PathString s \<Rightarrow> v = SStr s
      | PathArray ss \<Rightarrow> array_at st v = Some (map SStr ss))"

text \<open>\<open>extends m\<close>: the program only allocates, so the store it returns is the
  store it was given followed by new cells. \<open>frames n m\<close>: the program leaves the
  first \<open>n\<close> cells as they are. \<open>fresh n v\<close>: a reference lies at address
  \<open>n\<close> or above.\<close>

definition extends :: "'a prog \<Rightarrow> bool" where
  "extends m = (\<forall>st r st'. m st = Inr (r, st') \<longrightarrow> prefix st st')"

definition fresh :: "nat \<Rightarrow> sval \<Rightarrow> bool" where
  "fresh n v = (case v of SRef a \<Rightarrow> n \<le> a | _ \<Rightarrow> True)"

definition frames :: "nat \<Rightarrow> 'a prog \<Rightarrow> bool" where
  "frames n m =
     (\<forall>st r st'. n \<le> length st \<longrightarrow> m st = Inr (r, st') \<longrightarrow>
        length st \<le> length st' \<and> take n st' = take n st)"

text \<open>For the comparison of the two models: a set of cells \<open>h\<close> that the store
  agrees with, and its growth by cells allocated on the way.\<close>

definition tracks :: "(addr \<Rightarrow> cell option) \<Rightarrow> store \<Rightarrow> bool" where
  "tracks h st = (h \<subseteq>\<^sub>m cell_at st)"

definition grows :: "(addr \<Rightarrow> cell option) \<Rightarrow> store \<Rightarrow> (addr \<Rightarrow> cell option) \<Rightarrow> store \<Rightarrow> bool" where
  "grows h st h' st' =
     (prefix st st' \<and> h \<subseteq>\<^sub>m h' \<and> tracks h' st' \<and> dom h' \<subseteq> dom h \<union> {a. length st \<le> a})"

definition key_cell :: "string \<Rightarrow> cell" where
  "key_cell s = ArrayCell (map SStr (split_slash s))"

text \<open>A store with the document \<^verbatim>\<open>{items: [{v: 1}, {v: 2}, {v: 0}], a: null}\<close> at
  address 4, the caller's path list \<^verbatim>\<open>["items/v", "a/x"]\<close> at address 5 and an array
  of keys at address 6; the store after the call on that document and that list; and the
  document as a tree.\<close>

definition example_store :: store where
  "example_store =
     [ObjectCell [(''v'', SNum 1)], ObjectCell [(''v'', SNum 2)], ObjectCell [(''v'', SNum 0)],
      ArrayCell [SRef 0, SRef 1, SRef 2],
      ObjectCell [(''items'', SRef 3), (''a'', SNull)],
      ArrayCell [SStr ''items/v'', SStr ''a/x''],
      ArrayCell [SStr ''items'']]"

definition example_store' :: store where
  "example_store' = example_store @
     [ArrayCell [SStr ''items''], ArrayCell [SStr ''a''], ArrayCell [SRef 7, SRef 8],
      ArrayCell [SRef 12], ArrayCell [SNum 1, SNum 2, SNum 0], ArrayCell [SNum 1, SNum 2]]"

definition example_doc :: jsval where
  "example_doc =
     JObj [(''items'', JArr [JObj [(''v'', JNum 1)], JObj [(''v'', JNum 2)], JObj [(''v'', JNum 0)]]),
           (''a'', JNull)]"

section \<open>Inherited properties\<close>

text \<open>
  A read \<^verbatim>\<open>v[k]\<close> that finds no own property \<^verbatim>\<open>k\<close> on \<^verbatim>\<open>v\<close> goes on to
  the prototype of \<^verbatim>\<open>v\<close>. What it finds there belongs to the host, not to the
  document: \<^verbatim>\<open>(5).constructor\<close> is the function \<^verbatim>\<open>Number\<close>, and an inherited
  accessor can raise, as \<^verbatim>\<open>caller\<close> and \<^verbatim>\<open>arguments\<close> do on a built-in
  function. Neither function of the path query tells an own property from an inherited
  one, so a path segment may name either. Here the two functions are modelled with the
  host as a parameter. Nothing is assumed of the host: a theorem about these functions
  holds for every \<open>H\<close>.
\<close>

text \<open>The own property \<^verbatim>\<open>k\<close> of a value, if it has one (the properties
  \<open>own_prop\<close> reads).\<close>

fun own_lookup :: "jsval \<Rightarrow> string \<Rightarrow> jsval option" where
  "own_lookup (JObj kvs) k = map_of kvs k"
| "own_lookup (JArr xs) k =
     (if k = ''length'' then Some (JNum (of_nat (length xs)))
      else case array_index k of
        Some i \<Rightarrow> (if i < length xs then Some (xs ! i) else None)
      | None \<Rightarrow> None)"
| "own_lookup (JStr s) k =
     (if k = ''length'' then Some (JNum (of_nat (length s)))
      else case array_index k of
        Some i \<Rightarrow> (if i < length s then Some (JStr [s ! i]) else None)
      | None \<Rightarrow> None)"
| "own_lookup v k = None"

text \<open>
  The host: \<open>hread H v k\<close> is the outcome of reading \<^verbatim>\<open>k\<close> on a value
  \<^verbatim>\<open>v\<close> that has no own property \<^verbatim>\<open>k\<close>, a value or a \<^verbatim>\<open>TypeError\<close>;
  \<open>harray H h\<close> gives the elements of the host value \<open>h\<close> when it is an array
  (\<^verbatim>\<open>Array.prototype\<close> is one); \<open>htruthy H h\<close> is \<^verbatim>\<open>Boolean\<close> of it.
\<close>

record host =
  hread :: "jsval \<Rightarrow> string \<Rightarrow> error + jsval"
  harray :: "string \<Rightarrow> jsval list option"
  htruthy :: "string \<Rightarrow> bool"

text \<open>\<^verbatim>\<open>v[k]\<close> and \<^verbatim>\<open>v?.[k]\<close>: the own property first, the inherited one
  otherwise.\<close>

definition get_prop_h :: "host \<Rightarrow> jsval \<Rightarrow> string \<Rightarrow> error + jsval" where
  "get_prop_h H v k =
     (if v = JUndefined \<or> v = JNull then Inl TypeError
      else case own_lookup v k of Some x \<Rightarrow> Inr x | None \<Rightarrow> hread H v k)"

definition opt_get_h :: "host \<Rightarrow> jsval \<Rightarrow> string \<Rightarrow> error + jsval" where
  "opt_get_h H v k = (if v = JUndefined \<or> v = JNull then Inr JUndefined else get_prop_h H v k)"

text \<open>\<^verbatim>\<open>Array.isArray\<close>, \<^verbatim>\<open>Boolean\<close> and the array methods, on host values
  too.\<close>

fun array_elements :: "host \<Rightarrow> jsval \<Rightarrow> jsval list option" where
  "array_elements H (JArr xs) = Some xs"
| "array_elements H (JHost h) = harray H h"
| "array_elements H v = None"

definition isArray_h :: "host \<Rightarrow> jsval \<Rightarrow> bool" where
  "isArray_h H v = (array_elements H v \<noteq> None)"

fun Boolean_h :: "host \<Rightarrow> jsval \<Rightarrow> bool" where
  "Boolean_h H (JHost h) = htruthy H h"
| "Boolean_h H v = Boolean v"

definition js_map_h :: "host \<Rightarrow> (jsval \<Rightarrow> error + jsval) \<Rightarrow> jsval \<Rightarrow> error + jsval" where
  "js_map_h H f v =
     (case array_elements H v of
        None \<Rightarrow> Inl TypeError
      | Some xs \<Rightarrow> (case map_err f xs of Inl e \<Rightarrow> Inl e | Inr ys \<Rightarrow> Inr (JArr ys)))"

definition js_filter_h :: "host \<Rightarrow> (jsval \<Rightarrow> bool) \<Rightarrow> jsval \<Rightarrow> error + jsval" where
  "js_filter_h H p v =
     (case array_elements H v of
        None \<Rightarrow> Inl TypeError
      | Some xs \<Rightarrow> Inr (JArr (filter p xs)))"

fun flatten_into_h :: "host \<Rightarrow> jsval list \<Rightarrow> jsval list" where
  "flatten_into_h H [] = []"
| "flatten_into_h H (x # xs) =
     (case array_elements H x of
        Some ys \<Rightarrow> ys @ flatten_into_h H xs
      | None \<Rightarrow> x # flatten_into_h H xs)"

definition js_flat_h :: "host \<Rightarrow> jsval \<Rightarrow> error + jsval" where
  "js_flat_h H v =
     (case array_elements H v of
        None \<Rightarrow> Inl TypeError
      | Some xs \<Rightarrow> Inr (JArr (flatten_into_h H xs)))"

text \<open>\<^verbatim>\<open>traverseBasedOnPath\<close> and \<^verbatim>\<open>getValuesFromObjectByPath\<close>, statement by
  statement as in the section on the path query, every property read and array method
  being the one above.\<close>

fun traverse_loop_h :: "host \<Rightarrow> jsval \<Rightarrow> string list \<Rightarrow> error + jsval" where
  "traverse_loop_h H current [] = Inr current"
| "traverse_loop_h H current (key # keys) =
     (if current = JUndefined \<or> current = JNull then Inr current
      else if key = ''[n]'' then
        (if \<not> isArray_h H current then Inr JUndefined
         else ebind (ebind (ebind (js_map_h H (\<lambda>item. Inr item) current)
                (js_filter_h H (Boolean_h H))) (js_flat_h H))
                (\<lambda>current'. traverse_loop_h H current' keys))
      else if isArray_h H current then
        ebind (ebind (ebind (js_map_h H (\<lambda>item. opt_get_h H item key) current)
          (js_filter_h H (Boolean_h H))) (js_flat_h H))
          (\<lambda>current'. traverse_loop_h H current' keys)
      else ebind (opt_get_h H current key) (\<lambda>current'. traverse_loop_h H current' keys))"

definition traverseBasedOnPath_h :: "host \<Rightarrow> jsval \<Rightarrow> string list \<Rightarrow> error + jsval" where
  "traverseBasedOnPath_h H obj pathKeys = traverse_loop_h H obj pathKeys"

definition finalValue_h :: "host \<Rightarrow> jsval \<Rightarrow> string \<Rightarrow> error + jsval" where
  "finalValue_h H valueAtPath accessor =
     (if isArray_h H valueAtPath
      then ebind (js_map_h H (\<lambda>item. opt_get_h H item accessor) valueAtPath)
             (js_filter_h H (Boolean_h H))
      else opt_get_h H valueAtPath accessor)"

definition pathResult_h :: "host \<Rightarrow> jsval \<Rightarrow> string list \<Rightarrow> error + jsval option" where
  "pathResult_h H obj pathKeys =
     (if length pathKeys = 0 then Inr None
      else
        let accessor = last pathKeys; pathKeys' = butlast pathKeys in
        ebind (traverseBasedOnPath_h H obj pathKeys') (\<lambda>valueAtPath.
          if valueAtPath \<noteq> JUndefined then
            ebind (finalValue_h H valueAtPath accessor) (\<lambda>v.
              if v \<noteq> JUndefined then Inr (Some v) else Inr None)
          else Inr None))"

fun collect_h :: "host \<Rightarrow> jsval \<Rightarrow> string list list \<Rightarrow> jsval list \<Rightarrow> error + jsval list" where
  "collect_h H obj [] results = Inr results"
| "collect_h H obj (pathKeys # rest) results =
     ebind (pathResult_h H obj pathKeys) (\<lambda>r.
       case r of
         None \<Rightarrow> collect_h H obj rest results
       | Some v \<Rightarrow> collect_h H obj rest (results @ [v]))"

definition getValuesFromObjectByPath_h :: "host \<Rightarrow> jsval \<Rightarrow> paths_arg \<Rightarrow> error + jsval" where
  "getValuesFromObjectByPath_h H obj paths =
     ebind (collect_h H obj (allPaths paths) []) (\<lambda>results. Inr (returnValue results))"

text \<open>A key is safe on a host when reading it as an inherited property raises on no
  value.\<close>

definition safe_key :: "host \<Rightarrow> string \<Rightarrow> bool" where
  "safe_key H k = (\<forall>v. \<exists>r. hread H v k = Inr r)"

text \<open>A value is JSON data when no host value occurs in it; a key is plain on a host when
  no JSON data inherits a property of that name.\<close>

fun json :: "jsval \<Rightarrow> bool" where
  "json (JArr xs) = list_all json xs"
| "json (JObj kvs) = list_all (\<lambda>kv. json (snd kv)) kvs"
| "json (JHost h) = False"
| "json v = True"

definition plain_key :: "host \<Rightarrow> string \<Rightarrow> bool" where
  "plain_key H k = (\<forall>v. json v \<longrightarrow> hread H v k = Inr JUndefined)"

text \<open>
  A fragment of the built-in objects of a JavaScript host, for the examples: every value
  that is not \<^verbatim>\<open>null\<close> or \<^verbatim>\<open>undefined\<close> inherits \<^verbatim>\<open>constructor\<close>, one
  of the built-in functions \<^verbatim>\<open>Object\<close>, \<^verbatim>\<open>Array\<close>, \<^verbatim>\<open>String\<close>,
  \<^verbatim>\<open>Number\<close>, \<^verbatim>\<open>Boolean\<close>; a built-in function has its \<^verbatim>\<open>name\<close>, the
  constructor \<^verbatim>\<open>Function\<close>, and the accessors \<^verbatim>\<open>caller\<close> and
  \<^verbatim>\<open>arguments\<close> it inherits from \<^verbatim>\<open>Function.prototype\<close>, which throw a
  \<^verbatim>\<open>TypeError\<close> on it. A host has more inherited properties (\<^verbatim>\<open>toString\<close>,
  \<^verbatim>\<open>prototype\<close>, ...); the fragment leaves them out and reads them as
  \<^verbatim>\<open>undefined\<close>, and no example here reads one.
\<close>

definition is_function :: "string \<Rightarrow> bool" where
  "is_function h = (h \<in> set [''Object'', ''Array'', ''String'', ''Number'', ''Boolean'', ''Function''])"

fun builtin_read :: "jsval \<Rightarrow> string \<Rightarrow> error + jsval" where
  "builtin_read (JHost h) k =
     (if is_function h then
        (if k = ''caller'' \<or> k = ''arguments'' then Inl TypeError
         else if k = ''name'' then Inr (JStr h)
         else if k = ''constructor'' then Inr (JHost ''Function'')
         else Inr JUndefined)
      else Inr JUndefined)"
| "builtin_read (JObj kvs) k = (if k = ''constructor'' then Inr (JHost ''Object'') else Inr JUndefined)"
| "builtin_read (JArr xs) k = (if k = ''constructor'' then Inr (JHost ''Array'') else Inr JUndefined)"
| "builtin_read (JStr s) k = (if k = ''constructor'' then Inr (JHost ''String'') else Inr JUndefined)"
| "builtin_read (JNum n) k = (if k = ''constructor'' then Inr (JHost ''Number'') else Inr JUndefined)"
| "builtin_read (JBool b) k = (if k = ''constructor'' then Inr (JHost ''Boolean'') else Inr JUndefined)"
| "builtin_read v k = Inr JUndefined"

definition builtins :: host where
  "builtins = \<lparr>hread = builtin_read, harray = (\<lambda>h. None), htruthy = (\<lambda>h. True)\<rparr>"

section \<open>Basic facts\<close>

lemma ebind_Inr [simp]: "ebind (Inr x) f = f x"
  by (simp add: ebind_def)

lemma ebind_Inl [simp]: "ebind (Inl e) f = Inl e"
  by (simp add: ebind_def)

lemma opt_get_chained: "opt_get v k = Inr (chained v k)"
  by (simp add: opt_get_def get_prop_def chained_def)

lemma map_err_pure: "map_err (\<lambda>x. Inr (g x)) xs = Inr (map g xs)"
  by (induction xs) simp_all

lemma map_err_Inr: "map_err Inr xs = Inr xs"
  by (induction xs) simp_all

lemma isArray_iff: "isArray v \<longleftrightarrow> (\<exists>xs. v = JArr xs)"
  by (cases v) simp_all

lemma flatten_into_concat: "flatten_into xs = concat (map elements xs)"
  by (induction xs rule: flatten_into.induct) (simp_all add: elements_def)

lemma split_slash_not_Nil: "split_slash s \<noteq> []"
  by (induction s) (auto split: list.splits)

subsection \<open>One step of the traversal\<close>

lemma traverse_loop_nullish:
  "current = JUndefined \<or> current = JNull \<Longrightarrow> traverse_loop current keys = Inr current"
  by (cases keys) auto

lemma traverse_loop_wildcard:
  "traverse_loop (JArr xs) (''[n]'' # keys) =
     traverse_loop (JArr (flatten_into (filter Boolean xs))) keys"
  by (simp add: map_err_Inr)

lemma traverse_loop_array:
  "key \<noteq> ''[n]'' \<Longrightarrow> traverse_loop (JArr xs) (key # keys) =
     traverse_loop (JArr (flatten_into (filter Boolean (map (\<lambda>item. chained item key) xs)))) keys"
  by (simp add: opt_get_chained map_err_pure)

lemma traverse_loop_plain:
  "key \<noteq> ''[n]'' \<Longrightarrow> \<not> isArray current \<Longrightarrow> current \<noteq> JUndefined \<Longrightarrow> current \<noteq> JNull \<Longrightarrow>
   traverse_loop current (key # keys) = traverse_loop (own_prop current key) keys"
  by (simp add: opt_get_chained chained_def)

lemma traverse_loop_not_array:
  "\<not> isArray current \<Longrightarrow> current \<noteq> JUndefined \<Longrightarrow> current \<noteq> JNull \<Longrightarrow>
   traverse_loop current (''[n]'' # keys) = Inr JUndefined"
  by simp

text \<open>The traversal returns on every value and every list of keys.\<close>

lemma traverse_loop_total: "\<exists>c. traverse_loop current keys = Inr c"
proof (induction keys arbitrary: current)
  case Nil
  show ?case by simp
next
  case (Cons key keys)
  show ?case
  proof (cases "current = JUndefined \<or> current = JNull")
    case True
    then show ?thesis by (simp add: traverse_loop_nullish)
  next
    case live: False
    show ?thesis
    proof (cases "isArray current")
      case True
      then obtain xs where xs: "current = JArr xs" by (auto simp: isArray_iff)
      show ?thesis
      proof (cases "key = ''[n]''")
        case True
        then show ?thesis unfolding xs using Cons.IH
          by (simp add: traverse_loop_wildcard del: traverse_loop.simps)
      next
        case False
        then show ?thesis unfolding xs using Cons.IH
          by (simp add: traverse_loop_array del: traverse_loop.simps)
      qed
    next
      case scalar: False
      show ?thesis
      proof (cases "key = ''[n]''")
        case True
        with scalar live show ?thesis by simp
      next
        case False
        with scalar live show ?thesis using Cons.IH
          by (simp add: traverse_loop_plain del: traverse_loop.simps)
      qed
    qed
  qed
qed

text \<open>Traversing a list of keys is traversing its first part, then the rest from the
  value reached: both the \<^verbatim>\<open>break\<close> and the early \<^verbatim>\<open>return\<close> leave a value on
  which every later iteration stops at once.\<close>

lemma traverse_loop_append:
  "traverse_loop current (pre @ post) =
     ebind (traverse_loop current pre) (\<lambda>c. traverse_loop c post)"
proof (induction pre arbitrary: current)
  case Nil
  show ?case by simp
next
  case (Cons key keys)
  show ?case
  proof (cases "current = JUndefined \<or> current = JNull")
    case True
    then show ?thesis by (auto simp: traverse_loop_nullish)
  next
    case live: False
    show ?thesis
    proof (cases "isArray current")
      case True
      then obtain xs where xs: "current = JArr xs" by (auto simp: isArray_iff)
      show ?thesis
      proof (cases "key = ''[n]''")
        case True
        then show ?thesis unfolding xs using Cons.IH
          by (simp add: traverse_loop_wildcard del: traverse_loop.simps)
      next
        case False
        then show ?thesis unfolding xs using Cons.IH
          by (simp add: traverse_loop_array del: traverse_loop.simps)
      qed
    next
      case scalar: False
      show ?thesis
      proof (cases "key = ''[n]''")
        case True
        with scalar live show ?thesis by (simp add: traverse_loop_nullish)
      next
        case False
        with scalar live show ?thesis using Cons.IH
          by (simp add: traverse_loop_plain del: traverse_loop.simps)
      qed
    qed
  qed
qed

subsection \<open>One path\<close>

lemma finalValue_array:
  "finalValue (JArr xs) accessor =
     Inr (JArr (filter Boolean (map (\<lambda>item. chained item accessor) xs)))"
  by (simp add: finalValue_def opt_get_chained map_err_pure)

lemma finalValue_plain:
  "\<not> isArray c \<Longrightarrow> finalValue c accessor = Inr (chained c accessor)"
  by (simp add: finalValue_def opt_get_chained)

lemma finalValue_total: "\<exists>v. finalValue c accessor = Inr v"
  by (cases "isArray c") (auto simp: isArray_iff finalValue_array finalValue_plain)

lemma pathResult_total: "\<exists>r. pathResult obj pathKeys = Inr r"
proof -
  obtain c where c: "traverse_loop obj (butlast pathKeys) = Inr c"
    using traverse_loop_total by blast
  obtain v where v: "finalValue c (last pathKeys) = Inr v"
    using finalValue_total by blast
  show ?thesis
    by (simp add: pathResult_def traverseBasedOnPath_def Let_def c v)
qed

subsection \<open>The loop over the paths\<close>

lemma map_err_pathResult_total: "\<exists>rs. map_err (pathResult obj) pks = Inr rs"
proof (induction pks)
  case Nil
  show ?case by simp
next
  case (Cons pk pks)
  then obtain rs where rs: "map_err (pathResult obj) pks = Inr rs" by blast
  obtain r where r: "pathResult obj pk = Inr r" using pathResult_total by blast
  show ?case by (simp add: r rs)
qed

lemma collect_map_err:
  "map_err (pathResult obj) pks = Inr rs \<Longrightarrow>
   collect obj pks results = Inr (results @ List.map_filter (\<lambda>r. r) rs)"
proof (induction pks arbitrary: results rs)
  case Nil
  then show ?case by simp
next
  case (Cons pk pks)
  obtain r where r: "pathResult obj pk = Inr r" using pathResult_total by blast
  obtain rs' where rs': "map_err (pathResult obj) pks = Inr rs'"
    using map_err_pathResult_total by blast
  from Cons.prems r rs' have rs: "rs = r # rs'" by simp
  show ?case
    by (cases r) (simp_all add: r rs Cons.IH [OF rs'])
qed


text \<open>The keys before the accessor are traversed, the accessor is read off the value
  reached, and the path pushes the value read unless either is \<^verbatim>\<open>undefined\<close>.\<close>

lemma pathResult_snoc:
  "traverse_loop obj keys = Inr c \<Longrightarrow> finalValue c accessor = Inr v \<Longrightarrow>
   pathResult obj (keys @ [accessor]) =
     Inr (if c \<noteq> JUndefined \<and> v \<noteq> JUndefined then Some v else None)"
  by (simp add: pathResult_def traverseBasedOnPath_def)

lemma finalValue_nullish:
  "c = JUndefined \<or> c = JNull \<Longrightarrow> finalValue c accessor = Inr JUndefined"
  by (auto simp: finalValue_def opt_get_def)

lemma single_path:
  "pathResult obj (split_slash p) = Inr r \<Longrightarrow>
   getValuesFromObjectByPath obj (PathString p) =
     Inr (case r of None \<Rightarrow> JUndefined | Some v \<Rightarrow> v)"
  by (cases r) (simp_all add: getValuesFromObjectByPath_def allPaths_def returnValue_def)

lemma map_err_append:
  "map_err f xs = Inr rs \<Longrightarrow> map_err f ys = Inr rs' \<Longrightarrow> map_err f (xs @ ys) = Inr (rs @ rs')"
proof (induction xs arbitrary: rs)
  case Nil
  then show ?case by simp
next
  case (Cons x xs)
  then show ?case by (auto split: sum.splits)
qed

lemma omitted_path:
  assumes "pathResult obj (split_slash p) = Inr None"
  shows "getValuesFromObjectByPath obj (PathArray (ps @ p # ps')) =
         getValuesFromObjectByPath obj (PathArray (ps @ ps'))"
proof -
  obtain rs where rs: "map_err (pathResult obj) (map split_slash ps) = Inr rs"
    using map_err_pathResult_total by blast
  obtain rs' where rs': "map_err (pathResult obj) (map split_slash ps') = Inr rs'"
    using map_err_pathResult_total by blast
  have one: "map_err (pathResult obj) (split_slash p # map split_slash ps') = Inr (None # rs')"
    by (simp add: assms rs')
  have a: "map_err (pathResult obj) (map split_slash ps @ split_slash p # map split_slash ps') =
      Inr (rs @ None # rs')"
    using map_err_append [OF rs one] .
  have b: "map_err (pathResult obj) (map split_slash ps @ map split_slash ps') = Inr (rs @ rs')"
    using map_err_append [OF rs rs'] .
  show ?thesis
    by (simp add: getValuesFromObjectByPath_def allPaths_def
        collect_map_err [OF a] collect_map_err [OF b] List.map_filter_def)
qed

lemma extract_total: "\<exists>r. getValuesFromObjectByPath obj paths = Inr r"
proof -
  obtain rs where rs: "map_err (pathResult obj) (allPaths paths) = Inr rs"
    using map_err_pathResult_total by blast
  show ?thesis
    by (simp add: getValuesFromObjectByPath_def collect_map_err [OF rs])
qed

lemma traverse_snoc:
  "traverseBasedOnPath obj pre = Inr c \<Longrightarrow>
   traverseBasedOnPath obj (pre @ post) = traverseBasedOnPath c post"
  by (simp add: traverseBasedOnPath_def traverse_loop_append)

lemma results_with:
  assumes "pathResult obj (split_slash p) = Inr (Some v)"
  shows "\<exists>xs ys. collect obj (map split_slash ps @ split_slash p # map split_slash ps') [] =
           Inr (xs @ v # ys)"
proof -
  obtain rs where rs: "map_err (pathResult obj) (map split_slash ps) = Inr rs"
    using map_err_pathResult_total by blast
  obtain rs' where rs': "map_err (pathResult obj) (map split_slash ps') = Inr rs'"
    using map_err_pathResult_total by blast
  have one: "map_err (pathResult obj) (split_slash p # map split_slash ps') = Inr (Some v # rs')"
    by (simp add: assms rs')
  have "map_err (pathResult obj) (map split_slash ps @ split_slash p # map split_slash ps') =
      Inr (rs @ Some v # rs')"
    using map_err_append [OF rs one] .
  from collect_map_err [OF this, of "[]"] show ?thesis
    by (auto simp: List.map_filter_def)
qed

lemma returnValue_with:
  "returnValue (xs @ v # ys) = (if xs = [] \<and> ys = [] then v else JArr (xs @ v # ys))"
  by (cases xs; cases ys) (simp_all add: returnValue_def)

lemmas eval_defs = allPaths_def pathResult_def traverseBasedOnPath_def finalValue_def
  opt_get_def get_prop_def Let_def array_index_def returnValue_def
  getValuesFromObjectByPath_def

section \<open>Facts about the store model\<close>

subsection \<open>What a call leaves unchanged\<close>

lemma sbind_Inr:
  "sbind m f st = Inr (r, st') \<longleftrightarrow> (\<exists>x st1. m st = Inr (x, st1) \<and> f x st1 = Inr (r, st'))"
  by (auto simp: sbind_def split: sum.splits)

lemma extendsI: "(\<And>st r st'. m st = Inr (r, st') \<Longrightarrow> prefix st st') \<Longrightarrow> extends m"
  by (simp add: extends_def)

lemma extendsD: "extends m \<Longrightarrow> m st = Inr (r, st') \<Longrightarrow> prefix st st'"
  by (simp add: extends_def)

lemma extends_sreturn [simp]: "extends (sreturn x)"
  by (simp add: extends_def sreturn_def)

lemma extends_sraise [simp]: "extends (sraise e)"
  by (simp add: extends_def sraise_def)

lemma extends_alloc [simp]: "extends (alloc c)"
  by (auto simp: extends_def alloc_def)

lemma extends_sbind: "extends m \<Longrightarrow> (\<And>x. extends (f x)) \<Longrightarrow> extends (sbind m f)"
  unfolding extends_def sbind_Inr by (blast intro: prefix_order.trans)

lemma extends_s_opt_get [simp]: "extends (s_opt_get v k)"
  by (auto simp: extends_def s_opt_get_def s_get_prop_def sreturn_def)

lemma extends_the_key [simp]: "extends (the_key v)"
  by (cases v) simp_all

lemma extends_read_array [simp]: "extends (read_array v)"
  by (auto simp: extends_def read_array_def split: option.splits)

lemma extends_s_map_loop: "(\<And>x. extends (f x)) \<Longrightarrow> extends (s_map_loop f xs)"
  by (induction xs) (simp_all add: extends_sbind)

lemma extends_s_map: "(\<And>x. extends (f x)) \<Longrightarrow> extends (s_map f v)"
proof (rule extendsI)
  fix st r st'
  assume f: "\<And>x. extends (f x)" and run: "s_map f v st = Inr (r, st')"
  from run obtain xs where
    "sbind (s_map_loop f xs) (\<lambda>ys. alloc (ArrayCell ys)) st = Inr (r, st')"
    by (auto simp: s_map_def split: option.splits)
  with extends_sbind [OF extends_s_map_loop [of f xs], of "\<lambda>ys. alloc (ArrayCell ys)"] f
  show "prefix st st'"
    by (auto dest: extendsD)
qed

lemma extends_s_filter [simp]: "extends (s_filter p v)"
  by (auto simp: extends_def s_filter_def alloc_def split: option.splits)

lemma extends_s_flat [simp]: "extends (s_flat v)"
  by (auto simp: extends_def s_flat_def alloc_def split: option.splits)

lemma extends_s_split [simp]: "extends (s_split p)"
  by (cases p) (simp_all add: s_split_def)

lemma extends_if_store:
  "extends m \<Longrightarrow> extends m' \<Longrightarrow> extends (\<lambda>st. if c st then m st else m' st)"
  by (auto simp: extends_def)

lemma extends_const: "extends (\<lambda>st. Inr (x, st))"
  by (simp add: extends_def)

lemma extends_s_traverse_loop: "extends (s_traverse_loop current keys)"
proof (induction keys arbitrary: current)
  case Nil
  show ?case by simp
next
  case (Cons key keys)
  have wild: "extends (sbind (sbind (sbind (s_map (\<lambda>item. sreturn item) current)
      (s_filter s_Boolean)) s_flat) (\<lambda>current'. s_traverse_loop current' keys))"
    by (intro extends_sbind extends_s_map Cons.IH) simp_all
  have dist: "extends (sbind (sbind (sbind
      (s_map (\<lambda>item. sbind (the_key key) (s_opt_get item)) current)
      (s_filter s_Boolean)) s_flat) (\<lambda>current'. s_traverse_loop current' keys))"
    by (intro extends_sbind extends_s_map Cons.IH) simp_all
  have plain: "extends (sbind (sbind (the_key key) (s_opt_get current))
      (\<lambda>current'. s_traverse_loop current' keys))"
    by (intro extends_sbind Cons.IH) simp_all
  show ?case
  proof (rule extendsI)
    fix st r st'
    assume "s_traverse_loop current (key # keys) st = Inr (r, st')"
    with extendsD [OF wild, of st r st'] extendsD [OF dist, of st r st']
      extendsD [OF plain, of st r st']
    show "prefix st st'"
      by (auto split: if_splits)
  qed
qed

lemma extends_s_traverseBasedOnPath: "extends (s_traverseBasedOnPath obj pathKeys)"
  unfolding s_traverseBasedOnPath_def
  by (intro extends_sbind extends_s_traverse_loop) simp

lemma extends_s_finalValue: "extends (s_finalValue valueAtPath accessor)"
proof (rule extendsI)
  fix st r st'
  assume run: "s_finalValue valueAtPath accessor st = Inr (r, st')"
  have a: "extends (sbind (s_map (\<lambda>item. sbind (the_key accessor) (s_opt_get item)) valueAtPath)
      (s_filter s_Boolean))"
    by (intro extends_sbind extends_s_map) simp_all
  have b: "extends (sbind (the_key accessor) (s_opt_get valueAtPath))"
    by (intro extends_sbind) simp_all
  from run extendsD [OF a, of st r st'] extendsD [OF b, of st r st']
  show "prefix st st'"
    by (auto simp: s_finalValue_def split: if_splits)
qed

lemma framesI:
  "(\<And>st r st'. n \<le> length st \<Longrightarrow> m st = Inr (r, st') \<Longrightarrow>
      length st \<le> length st' \<and> take n st' = take n st) \<Longrightarrow> frames n m"
  by (simp add: frames_def)

lemma framesD:
  "frames n m \<Longrightarrow> n \<le> length st \<Longrightarrow> m st = Inr (r, st') \<Longrightarrow>
   length st \<le> length st' \<and> take n st' = take n st"
  by (simp add: frames_def)

lemma extends_frames: "extends m \<Longrightarrow> frames n m"
proof (rule framesI)
  fix st r st'
  assume e: "extends m" and n: "n \<le> length st" and run: "m st = Inr (r, st')"
  from e run have "prefix st st'" by (rule extendsD)
  then obtain zs where "st' = st @ zs" by (auto simp: prefix_def)
  with n show "length st \<le> length st' \<and> take n st' = take n st" by simp
qed

lemma frames_sbind: "frames n m \<Longrightarrow> (\<And>x. frames n (f x)) \<Longrightarrow> frames n (sbind m f)"
proof (rule framesI)
  fix st r st'
  assume m: "frames n m" and f: "\<And>x. frames n (f x)" and n: "n \<le> length st"
    and run: "sbind m f st = Inr (r, st')"
  from run obtain x st1 where 1: "m st = Inr (x, st1)" and 2: "f x st1 = Inr (r, st')"
    by (auto simp: sbind_Inr)
  from framesD [OF m n 1] have a: "length st \<le> length st1" "take n st1 = take n st"
    by simp_all
  with n have "n \<le> length st1" by simp
  from framesD [OF f this 2] a show "length st \<le> length st' \<and> take n st' = take n st"
    by simp
qed

lemma frames_s_pop: "fresh n v \<Longrightarrow> frames n (s_pop v)"
  by (rule framesI) (auto simp: s_pop_def fresh_def split: sval.splits option.splits cell.splits if_splits)

lemma frames_s_push: "fresh n arr \<Longrightarrow> frames n (s_push arr x)"
  by (rule framesI) (auto simp: s_push_def fresh_def split: sval.splits option.splits cell.splits)

lemma extends_s_get_prop [simp]: "extends (s_get_prop v k)"
  by (auto simp: extends_def s_get_prop_def split: if_splits)

lemma frames_s_body:
  assumes "fresh n results" and "fresh n pathKeys"
  shows "frames n (s_body obj results pathKeys)"
proof -
  have push: "frames n (if v \<noteq> SUndefined then s_push results v else sreturn ())" for v
    by (simp add: frames_s_push [OF assms(1)] extends_frames)
  have final: "frames n (if valueAtPath \<noteq> SUndefined then
      sbind (s_finalValue valueAtPath accessor) (\<lambda>v.
        if v \<noteq> SUndefined then s_push results v else sreturn ())
      else sreturn ())" for valueAtPath accessor
    using push by (simp add: frames_sbind extends_frames extends_s_finalValue)
  have rest: "frames n (if len = SNum 0 then sreturn ()
       else
         sbind (s_pop pathKeys) (\<lambda>accessor.
         sbind (s_traverseBasedOnPath obj pathKeys) (\<lambda>valueAtPath.
           if valueAtPath \<noteq> SUndefined then
             sbind (s_finalValue valueAtPath accessor) (\<lambda>v.
               if v \<noteq> SUndefined then s_push results v else sreturn ())
           else sreturn ())))" for len
    using final
    by (simp add: frames_sbind frames_s_pop [OF assms(2)] extends_frames
        extends_s_traverseBasedOnPath)
  show ?thesis
    unfolding s_body_def
    by (rule frames_sbind) (simp add: extends_frames, rule rest)
qed

lemma frames_s_collect:
  "fresh n results \<Longrightarrow> list_all (fresh n) pks \<Longrightarrow> frames n (s_collect obj results pks)"
  by (induction pks) (simp_all add: extends_frames frames_sbind frames_s_body)

text \<open>The arrays of keys are new.\<close>

lemma s_map_loop_split_fresh:
  "s_map_loop s_split xs st = Inr (ys, st') \<Longrightarrow> list_all (fresh (length st)) ys"
proof (induction xs arbitrary: st ys)
  case Nil
  then show ?case by (simp add: sreturn_def)
next
  case (Cons x xs)
  from Cons.prems obtain y st1 ys' where y: "s_split x st = Inr (y, st1)"
    and ys': "s_map_loop s_split xs st1 = Inr (ys', st')" and ys: "ys = y # ys'"
    by (auto simp: sbind_Inr sreturn_def)
  from y have fy: "fresh (length st) y" and len: "length st \<le> length st1"
    by (auto simp: s_split_def alloc_def sraise_def fresh_def split: sval.splits)
  from Cons.IH [OF ys'] len have "list_all (fresh (length st)) ys'"
    by (auto simp: list_all_iff fresh_def split: sval.splits)
  with fy ys show ?case by simp
qed

lemma array_at_append:
  "array_at st v = Some xs \<Longrightarrow> array_at (st @ cells) v = Some xs"
  by (auto simp: array_at_def cell_at_def nth_append split: sval.splits if_splits)

lemma array_at_alloc: "array_at (st @ [ArrayCell xs]) (SRef (length st)) = Some xs"
  by (simp add: array_at_def cell_at_def)

lemma s_allPaths_fresh:
  assumes "s_allPaths paths st = Inr (ap, st')"
  shows "prefix st st' \<and> (\<exists>ys. array_at st' ap = Some ys \<and> list_all (fresh (length st)) ys)"
proof (cases "s_isArray st paths")
  case True
  with assms obtain xs ys st1 where loop: "s_map_loop s_split xs st = Inr (ys, st1)"
    and out: "alloc (ArrayCell ys) st1 = Inr (ap, st')"
    by (auto simp: s_allPaths_def s_map_def sbind_Inr split: option.splits)
  have "extends (s_map_loop s_split xs)"
    by (rule extends_s_map_loop) simp
  from extendsD [OF this loop] out have "prefix st st'"
    by (auto simp: alloc_def prefix_def)
  moreover from out have "array_at st' ap = Some ys"
    by (auto simp: alloc_def array_at_alloc)
  ultimately show ?thesis
    using s_map_loop_split_fresh [OF loop] by blast
next
  case False
  with assms obtain s where "paths = SStr s"
    and "ap = SRef (Suc (length st))"
    and "st' = st @ [ArrayCell (map SStr (split_slash s)), ArrayCell [SRef (length st)]]"
    by (auto simp: s_allPaths_def s_split_def sbind_Inr alloc_def sraise_def split: sval.splits)
  then show ?thesis
    using array_at_alloc [of "st @ [ArrayCell (map SStr (split_slash s))]" "[SRef (length st)]"]
    by (simp add: fresh_def)
qed

lemma s_getValuesFromObjectByPath_frame:
  assumes "s_getValuesFromObjectByPath obj paths st = Inr (r, st')"
  shows "prefix st st'"
proof -
  from assms obtain ap st1 results st2 pks u st3 where
    ap: "s_allPaths paths st = Inr (ap, st1)"
    and res: "alloc (ArrayCell []) st1 = Inr (results, st2)"
    and pks: "read_array ap st2 = Inr (pks, st2)"
    and loop: "s_collect obj results pks st2 = Inr (u, st3)"
    and ret: "s_returnValue results st3 = Inr (r, st')"
    unfolding s_getValuesFromObjectByPath_def sbind_Inr
    by (auto simp: read_array_def split: option.splits)
  from s_allPaths_fresh [OF ap] obtain ys where p1: "prefix st st1"
    and ys: "array_at st1 ap = Some ys" and fr: "list_all (fresh (length st)) ys"
    by blast
  from res have st2: "st2 = st1 @ [ArrayCell []]" and results: "results = SRef (length st1)"
    by (auto simp: alloc_def)
  from pks ys have "pks = ys"
    by (auto simp: read_array_def st2 array_at_append split: option.splits)
  from p1 have len: "length st \<le> length st1"
    by (auto simp: prefix_def)
  then have fres: "fresh (length st) results"
    by (simp add: results fresh_def)
  from p1 have p2: "prefix st st2"
    by (auto simp: st2 prefix_def)
  then have t2: "take (length st) st2 = st"
    by (auto simp: prefix_def)
  have "length st \<le> length st2"
    using len by (simp add: st2)
  from framesD [OF frames_s_collect [OF fres fr [folded \<open>pks = ys\<close>]] this loop]
  have t3: "take (length st) st3 = st"
    by (simp add: t2)
  from ret have "st' = st3"
    by (auto simp: s_returnValue_def sbind_Inr read_array_def sreturn_def
        split: option.splits if_splits)
  with t3 show ?thesis
    by (metis take_is_prefix)
qed

subsection \<open>The store model computes what the tree model computes\<close>

lemma repr_mono: "repr h v t \<Longrightarrow> h \<subseteq>\<^sub>m h' \<Longrightarrow> repr h' v t"
proof (induction rule: repr.induct)
  case (repr_array a vs ts)
  from repr_array.hyps(1) repr_array.prems have "h' a = Some (ArrayCell vs)"
    by (auto simp: map_le_def dom_def)
  moreover from repr_array.IH repr_array.prems have "list_all2 (repr h') vs ts"
    by (auto elim!: list_all2_mono)
  ultimately show ?case by (rule repr.repr_array)
next
  case (repr_object a kvs kts)
  from repr_object.hyps(1) repr_object.prems have "h' a = Some (ObjectCell kvs)"
    by (auto simp: map_le_def dom_def)
  moreover from repr_object.IH repr_object.prems
  have "list_all2 (\<lambda>kv kt. fst kv = fst kt \<and> repr h' (snd kv) (snd kt)) kvs kts"
    by (auto elim!: list_all2_mono)
  ultimately show ?case by (rule repr.repr_object)
qed (auto intro: repr.intros)

lemma cell_at_prefix: "prefix st st' \<Longrightarrow> cell_at st \<subseteq>\<^sub>m cell_at st'"
  by (auto simp: map_le_def cell_at_def prefix_def nth_append split: if_splits)

lemma repr_prefix: "repr (cell_at st) v t \<Longrightarrow> prefix st st' \<Longrightarrow> repr (cell_at st') v t"
  by (erule repr_mono) (rule cell_at_prefix)

inductive_cases repr_JArrE: "repr h v (JArr ts)"
inductive_cases repr_JObjE: "repr h v (JObj kts)"
inductive_cases repr_JUndefinedE: "repr h v JUndefined"
inductive_cases repr_JNullE: "repr h v JNull"
inductive_cases repr_JBoolE: "repr h v (JBool b)"
inductive_cases repr_JNumE: "repr h v (JNum n)"
inductive_cases repr_JStrE: "repr h v (JStr s)"

lemma tracksD: "tracks h st \<Longrightarrow> h a = Some c \<Longrightarrow> cell_at st a = Some c"
  by (auto simp: tracks_def map_le_def dom_def)

lemma sim_Boolean: "repr h v t \<Longrightarrow> s_Boolean v = Boolean t"
  by (induction rule: repr.induct) simp_all

lemma sim_undefined: "repr h v t \<Longrightarrow> v = SUndefined \<longleftrightarrow> t = JUndefined"
  by (induction rule: repr.induct) simp_all

lemma sim_null: "repr h v t \<Longrightarrow> v = SNull \<longleftrightarrow> t = JNull"
  by (induction rule: repr.induct) simp_all

lemma sim_array_at:
  "tracks h st \<Longrightarrow> repr h v (JArr ts) \<Longrightarrow> \<exists>vs. array_at st v = Some vs \<and> list_all2 (repr h) vs ts"
  by (auto elim!: repr_JArrE simp: array_at_def dest: tracksD)

lemma sim_not_array:
  "repr h v t \<Longrightarrow> tracks h st \<Longrightarrow> \<not> isArray t \<Longrightarrow> array_at st v = None"
  by (induction rule: repr.induct) (auto simp: array_at_def dest: tracksD)

lemma sim_isArray: "tracks h st \<Longrightarrow> repr h v t \<Longrightarrow> s_isArray st v = isArray t"
  using sim_array_at [of h st v] sim_not_array [of h v t st]
  by (cases "isArray t") (auto simp: s_isArray_def isArray_iff)

lemma sim_map_of:
  "list_all2 (\<lambda>kv kt. fst kv = fst kt \<and> repr h (snd kv) (snd kt)) kvs kts \<Longrightarrow>
   repr h (case map_of kvs k of Some v \<Rightarrow> v | None \<Rightarrow> SUndefined)
          (case map_of kts k of Some t \<Rightarrow> t | None \<Rightarrow> JUndefined)"
  by (induction rule: list_all2_induct) (auto intro: repr.intros)

lemma sim_own_prop:
  "repr h v t \<Longrightarrow> tracks h st \<Longrightarrow> repr h (s_own_prop st v k) (own_prop t k)"
proof (induction rule: repr.induct)
  case (repr_array a vs ts)
  from repr_array.IH have vs: "list_all2 (repr h) vs ts"
    by (auto elim!: list_all2_mono)
  then have len: "length vs = length ts"
    by (rule list_all2_lengthD)
  from tracksD [OF repr_array.prems repr_array.hyps(1)] vs len show ?case
    by (auto intro: repr.intros simp: list_all2_nthD split: option.splits)
next
  case (repr_object a kvs kts)
  from repr_object.IH
  have "list_all2 (\<lambda>kv kt. fst kv = fst kt \<and> repr h (snd kv) (snd kt)) kvs kts"
    by (auto elim!: list_all2_mono)
  from sim_map_of [OF this] tracksD [OF repr_object.prems repr_object.hyps(1)] show ?case
    by simp
qed (auto intro: repr.intros split: option.splits)

lemma sim_opt_get:
  assumes "tracks h st" and "repr h v t"
  shows "\<exists>v'. sbind (the_key (SStr k)) (s_opt_get v) st = Inr (v', st) \<and> repr h v' (chained t k)"
proof (cases "v = SUndefined \<or> v = SNull")
  case True
  with assms(2) have "t = JUndefined \<or> t = JNull"
    by (auto simp: sim_undefined sim_null)
  with True show ?thesis
    by (auto simp: sbind_def sreturn_def s_opt_get_def chained_def intro: repr.intros)
next
  case False
  with assms(2) have "\<not> (t = JUndefined \<or> t = JNull)"
    by (auto simp: sim_undefined sim_null)
  with False sim_own_prop [OF assms(2) assms(1), of k] show ?thesis
    by (auto simp: sbind_def sreturn_def s_opt_get_def s_get_prop_def chained_def)
qed

lemma sim_map_loop:
  assumes f: "\<And>x t. repr h x t \<Longrightarrow> \<exists>y. f x st = Inr (y, st) \<and> repr h y (g t)"
  shows "list_all2 (repr h) xs ts \<Longrightarrow>
         \<exists>ys. s_map_loop f xs st = Inr (ys, st) \<and> list_all2 (repr h) ys (map g ts)"
proof (induction rule: list_all2_induct)
  case Nil
  show ?case by (simp add: sreturn_def)
next
  case (Cons x xs t ts)
  from f [OF Cons.hyps(1)] obtain y where y: "f x st = Inr (y, st)" "repr h y (g t)"
    by blast
  from Cons.IH obtain ys where ys: "s_map_loop f xs st = Inr (ys, st)"
      "list_all2 (repr h) ys (map g ts)"
    by blast
  from y ys show ?case
    by (auto simp: sbind_def sreturn_def)
qed

lemma sim_filter:
  "list_all2 (repr h) xs ts \<Longrightarrow> list_all2 (repr h) (filter s_Boolean xs) (filter Boolean ts)"
  by (induction rule: list_all2_induct) (auto simp: sim_Boolean)

lemma sim_flatten_into:
  assumes "tracks h st"
  shows "list_all2 (repr h) xs ts \<Longrightarrow>
         list_all2 (repr h) (s_flatten_into st xs) (flatten_into ts)"
proof (induction rule: list_all2_induct)
  case Nil
  show ?case by simp
next
  case (Cons x xs t ts)
  show ?case
  proof (cases "isArray t")
    case True
    then obtain es where t: "t = JArr es" by (auto simp: isArray_iff)
    from sim_array_at [OF assms Cons.hyps(1) [unfolded t]] obtain vs
      where "array_at st x = Some vs" "list_all2 (repr h) vs es"
      by blast
    with Cons.IH show ?thesis
      by (simp add: t list_all2_appendI)
  next
    case False
    from sim_not_array [OF Cons.hyps(1) assms False] Cons.hyps(1) Cons.IH False show ?thesis
      by (cases t) simp_all
  qed
qed

lemma sbind_step: "m st = Inr (x, st1) \<Longrightarrow> f x st1 = res \<Longrightarrow> sbind m f st = res"
  by (simp add: sbind_def)

lemma tracks_dom: "tracks h st \<Longrightarrow> h a = Some c \<Longrightarrow> a < length st"
  by (drule (1) tracksD) (simp add: cell_at_def split: if_splits)

lemma tracks_prefix: "tracks h st \<Longrightarrow> prefix st st' \<Longrightarrow> tracks h st'"
  unfolding tracks_def by (blast intro: map_le_trans cell_at_prefix)

lemma grows_refl: "tracks h st \<Longrightarrow> grows h st h st"
  by (simp add: grows_def)

lemma grows_trans:
  assumes "grows h st h1 st1" and "grows h1 st1 h2 st2"
  shows "grows h st h2 st2"
proof -
  from assms have len: "length st \<le> length st1"
    by (auto simp: grows_def prefix_def)
  from assms have "dom h2 \<subseteq> dom h1 \<union> {a. length st1 \<le> a}" "dom h1 \<subseteq> dom h \<union> {a. length st \<le> a}"
    by (simp_all add: grows_def)
  moreover from len have "{a. length st1 \<le> a} \<subseteq> {a. length st \<le> a}"
    by auto
  ultimately have "dom h2 \<subseteq> dom h \<union> {a. length st \<le> a}"
    by blast
  with assms show ?thesis
    by (auto simp: grows_def intro: map_le_trans)
qed

lemma grows_tracks: "grows h st h' st' \<Longrightarrow> tracks h' st'"
  by (simp add: grows_def)

lemma grows_repr: "grows h st h' st' \<Longrightarrow> repr h v t \<Longrightarrow> repr h' v t"
  by (auto simp: grows_def intro: repr_mono)

lemma grows_prefix: "grows h st h' st' \<Longrightarrow> prefix st st'"
  by (simp add: grows_def)

text \<open>A new array of represented values is itself represented, once its cell is known.\<close>

lemma grows_alloc:
  assumes h: "tracks h st" and p: "prefix st st1" and zs: "list_all2 (repr h) zs ts"
  shows "grows h st (h(length st1 \<mapsto> ArrayCell zs)) (st1 @ [ArrayCell zs]) \<and>
         repr (h(length st1 \<mapsto> ArrayCell zs)) (SRef (length st1)) (JArr ts)"
proof -
  let ?h = "h(length st1 \<mapsto> ArrayCell zs)"
  from p have len: "length st \<le> length st1"
    by (auto simp: prefix_def)
  have new: "length st1 \<notin> dom h"
    using tracks_dom [OF h] len by fastforce
  then have le: "h \<subseteq>\<^sub>m ?h"
    by (auto simp: map_le_def)
  from tracks_prefix [OF h p] have "tracks h (st1 @ [ArrayCell zs])"
    by (rule tracks_prefix) simp
  then have tr: "tracks ?h (st1 @ [ArrayCell zs])"
    by (auto simp: tracks_def map_le_def cell_at_def)
  have pre: "prefix st (st1 @ [ArrayCell zs])"
    using p by (auto simp: prefix_def)
  have "list_all2 (repr ?h) zs ts"
    using zs by (rule list_all2_mono) (rule repr_mono [OF _ le])
  then have "repr ?h (SRef (length st1)) (JArr ts)"
    by (intro repr_array) simp_all
  with pre le tr len show ?thesis
    by (auto simp: grows_def)
qed

lemma sim_map_filter_flat:
  assumes h: "tracks h st" and cur: "repr h current (JArr ts)"
    and f: "\<And>x t. repr h x t \<Longrightarrow> \<exists>y. f x st = Inr (y, st) \<and> repr h y (g t)"
  shows "\<exists>r st' h'.
      sbind (sbind (s_map f current) (s_filter s_Boolean)) s_flat st = Inr (r, st') \<and>
      grows h st h' st' \<and> repr h' r (JArr (flatten_into (filter Boolean (map g ts))))"
proof -
  from sim_array_at [OF h cur] obtain xs where xs: "array_at st current = Some xs"
    and rx: "list_all2 (repr h) xs ts"
    by blast
  from sim_map_loop [of h f st g, OF f rx] obtain ys
    where ys: "s_map_loop f xs st = Inr (ys, st)" and ry: "list_all2 (repr h) ys (map g ts)"
    by blast
  let ?st1 = "st @ [ArrayCell ys]"
  let ?fs = "filter s_Boolean ys"
  let ?st2 = "?st1 @ [ArrayCell ?fs]"
  let ?zs = "s_flatten_into ?st2 ?fs"
  have m: "s_map f current st = Inr (SRef (length st), ?st1)"
    by (simp add: s_map_def xs sbind_def ys alloc_def)
  have fl: "s_filter s_Boolean (SRef (length st)) ?st1 = Inr (SRef (length ?st1), ?st2)"
    by (simp add: s_filter_def array_at_alloc alloc_def)
  have ft: "s_flat (SRef (length ?st1)) ?st2 = Inr (SRef (length ?st2), ?st2 @ [ArrayCell ?zs])"
    using array_at_alloc [of ?st1 ?fs] by (simp add: s_flat_def alloc_def)
  have run: "sbind (sbind (s_map f current) (s_filter s_Boolean)) s_flat st =
      Inr (SRef (length ?st2), ?st2 @ [ArrayCell ?zs])"
    using m fl ft by (simp add: sbind_def)
  have p2: "prefix st ?st2"
    by (simp add: prefix_def)
  have "list_all2 (repr h) ?zs (flatten_into (filter Boolean (map g ts)))"
    by (intro sim_flatten_into tracks_prefix [OF h p2] sim_filter ry)
  from grows_alloc [OF h p2 this] run show ?thesis
    by blast
qed

lemma sim_map_filter:
  assumes h: "tracks h st" and cur: "repr h current (JArr ts)"
    and f: "\<And>x t. repr h x t \<Longrightarrow> \<exists>y. f x st = Inr (y, st) \<and> repr h y (g t)"
  shows "\<exists>r st' h'.
      sbind (s_map f current) (s_filter s_Boolean) st = Inr (r, st') \<and>
      grows h st h' st' \<and> repr h' r (JArr (filter Boolean (map g ts)))"
proof -
  from sim_array_at [OF h cur] obtain xs where xs: "array_at st current = Some xs"
    and rx: "list_all2 (repr h) xs ts"
    by blast
  from sim_map_loop [of h f st g, OF f rx] obtain ys
    where ys: "s_map_loop f xs st = Inr (ys, st)" and ry: "list_all2 (repr h) ys (map g ts)"
    by blast
  let ?st1 = "st @ [ArrayCell ys]"
  let ?fs = "filter s_Boolean ys"
  have m: "s_map f current st = Inr (SRef (length st), ?st1)"
    by (simp add: s_map_def xs sbind_def ys alloc_def)
  have fl: "s_filter s_Boolean (SRef (length st)) ?st1 =
      Inr (SRef (length ?st1), ?st1 @ [ArrayCell ?fs])"
    by (simp add: s_filter_def array_at_alloc alloc_def)
  have run: "sbind (s_map f current) (s_filter s_Boolean) st =
      Inr (SRef (length ?st1), ?st1 @ [ArrayCell ?fs])"
    using m fl by (simp add: sbind_def)
  have p1: "prefix st ?st1"
    by (simp add: prefix_def)
  from grows_alloc [OF h p1 sim_filter [OF ry]] run show ?thesis
    by blast
qed

lemma sim_traverse_loop:
  "tracks h st \<Longrightarrow> repr h current t \<Longrightarrow>
   \<exists>r st' h' t'. s_traverse_loop current (map SStr keys) st = Inr (r, st') \<and>
      traverse_loop t keys = Inr t' \<and> grows h st h' st' \<and> repr h' r t'"
proof (induction keys arbitrary: h st current t)
  case Nil
  then show ?case
    by (auto simp: sreturn_def intro: grows_refl)
next
  case (Cons key keys)
  note h = Cons.prems(1) and cur = Cons.prems(2)
  show ?case
  proof (cases "t = JUndefined \<or> t = JNull")
    case True
    with cur have "current = SUndefined \<or> current = SNull"
      by (auto simp: sim_undefined sim_null)
    with True h cur show ?thesis
      by (auto simp: traverse_loop_nullish intro: grows_refl)
  next
    case live: False
    with cur have slive: "\<not> (current = SUndefined \<or> current = SNull)"
      by (auto simp: sim_undefined sim_null)
    show ?thesis
    proof (cases "isArray t")
      case True
      then obtain ts where ts: "t = JArr ts" by (auto simp: isArray_iff)
      from True have sarr: "s_isArray st current"
        by (simp add: sim_isArray [OF h cur])
      show ?thesis
      proof (cases "key = ''[n]''")
        case True
        have "\<exists>y. sreturn x st = Inr (y, st) \<and> repr h y ((\<lambda>t. t) t')" if "repr h x t'" for x t'
          using that by (simp add: sreturn_def)
        from sim_map_filter_flat [of h st current ts "\<lambda>item. sreturn item" "\<lambda>t. t", OF h cur [unfolded ts] this]
        obtain r1 st1 h1 where
          step: "sbind (sbind (s_map (\<lambda>item. sreturn item) current) (s_filter s_Boolean)) s_flat st
            = Inr (r1, st1)"
          and g1: "grows h st h1 st1"
          and r1: "repr h1 r1 (JArr (flatten_into (filter Boolean ts)))"
          by auto
        from Cons.IH [OF grows_tracks [OF g1] r1] obtain r st' h' t' where
          rest: "s_traverse_loop r1 (map SStr keys) st1 = Inr (r, st')"
          "traverse_loop (JArr (flatten_into (filter Boolean ts))) keys = Inr t'"
          "grows h1 st1 h' st'" "repr h' r t'"
          by blast
        have "s_traverse_loop current (map SStr (key # keys)) st = Inr (r, st')"
          using slive sarr True
            sbind_step [where m = "sbind (sbind (s_map (\<lambda>item. sreturn item) current)
              (s_filter s_Boolean)) s_flat" and st = st
              and f = "\<lambda>current'. s_traverse_loop current' (map SStr keys)", OF step rest(1)]
          by simp
        moreover have "traverse_loop t (key # keys) = Inr t'"
          unfolding ts True traverse_loop_wildcard by (rule rest(2))
        ultimately show ?thesis
          using grows_trans [OF g1 rest(3)] rest(4) by blast
      next
        case False
        have "\<exists>y. sbind (the_key (SStr key)) (s_opt_get x) st = Inr (y, st) \<and>
            repr h y ((\<lambda>item. chained item key) t')" if "repr h x t'" for x t'
          using sim_opt_get [OF h that] by simp
        from sim_map_filter_flat [of h st current ts
            "\<lambda>item. sbind (the_key (SStr key)) (s_opt_get item)" "\<lambda>item. chained item key",
            OF h cur [unfolded ts] this]
        obtain r1 st1 h1 where
          step: "sbind (sbind (s_map (\<lambda>item. sbind (the_key (SStr key)) (s_opt_get item)) current)
              (s_filter s_Boolean)) s_flat st = Inr (r1, st1)"
          and g1: "grows h st h1 st1"
          and r1: "repr h1 r1 (JArr (flatten_into (filter Boolean (map (\<lambda>item. chained item key) ts))))"
          by auto
        from Cons.IH [OF grows_tracks [OF g1] r1] obtain r st' h' t' where
          rest: "s_traverse_loop r1 (map SStr keys) st1 = Inr (r, st')"
          "traverse_loop (JArr (flatten_into (filter Boolean (map (\<lambda>item. chained item key) ts)))) keys = Inr t'"
          "grows h1 st1 h' st'" "repr h' r t'"
          by blast
        have "s_traverse_loop current (map SStr (key # keys)) st = Inr (r, st')"
          using slive sarr False
            sbind_step [where m = "sbind (sbind
              (s_map (\<lambda>item. sbind (the_key (SStr key)) (s_opt_get item)) current)
              (s_filter s_Boolean)) s_flat" and st = st
              and f = "\<lambda>current'. s_traverse_loop current' (map SStr keys)", OF step rest(1)]
          by simp
        moreover have "traverse_loop t (key # keys) = Inr t'"
          unfolding ts traverse_loop_array [OF False] by (rule rest(2))
        ultimately show ?thesis
          using grows_trans [OF g1 rest(3)] rest(4) by blast
      qed
    next
      case scalar: False
      then have snot: "\<not> s_isArray st current"
        by (simp add: sim_isArray [OF h cur])
      show ?thesis
      proof (cases "key = ''[n]''")
        case True
        with scalar live snot slive h show ?thesis
          by (auto intro: grows_refl repr.intros)
      next
        case False
        from sim_opt_get [OF h cur, of key] obtain v' where
          v': "sbind (the_key (SStr key)) (s_opt_get current) st = Inr (v', st)"
          "repr h v' (chained t key)"
          by blast
        from Cons.IH [OF h v'(2)] obtain r st' h' t' where
          rest: "s_traverse_loop v' (map SStr keys) st = Inr (r, st')"
          "traverse_loop (chained t key) keys = Inr t'"
          "grows h st h' st'" "repr h' r t'"
          by blast
        have "s_traverse_loop current (map SStr (key # keys)) st = Inr (r, st')"
          using slive snot False
            sbind_step [where m = "sbind (the_key (SStr key)) (s_opt_get current)" and st = st
              and f = "\<lambda>current'. s_traverse_loop current' (map SStr keys)", OF v'(1) rest(1)]
          by simp
        moreover have "traverse_loop t (key # keys) = Inr t'"
          using traverse_loop_plain [OF False scalar] live rest(2)
          by (simp add: chained_def del: traverse_loop.simps)
        ultimately show ?thesis
          using rest(3,4) by blast
      qed
    qed
  qed
qed

lemma sim_finalValue:
  assumes h: "tracks h st" and v: "repr h v t"
  shows "\<exists>fv st' h' tv. s_finalValue v (SStr accessor) st = Inr (fv, st') \<and>
           finalValue t accessor = Inr tv \<and> grows h st h' st' \<and> repr h' fv tv"
proof (cases "isArray t")
  case True
  then obtain ts where ts: "t = JArr ts" by (auto simp: isArray_iff)
  from True have sarr: "s_isArray st v"
    by (simp add: sim_isArray [OF h v])
  have "\<exists>y. sbind (the_key (SStr accessor)) (s_opt_get x) st = Inr (y, st) \<and>
      repr h y ((\<lambda>item. chained item accessor) t')" if "repr h x t'" for x t'
    using sim_opt_get [OF h that] by simp
  from sim_map_filter [of h st v ts
      "\<lambda>item. sbind (the_key (SStr accessor)) (s_opt_get item)" "\<lambda>item. chained item accessor",
      OF h v [unfolded ts] this]
  obtain r st' h' where
    "sbind (s_map (\<lambda>item. sbind (the_key (SStr accessor)) (s_opt_get item)) v)
       (s_filter s_Boolean) st = Inr (r, st')"
    "grows h st h' st'"
    "repr h' r (JArr (filter Boolean (map (\<lambda>item. chained item accessor) ts)))"
    by auto
  with sarr show ?thesis
    by (auto simp: s_finalValue_def ts finalValue_array)
next
  case False
  then have snot: "\<not> s_isArray st v"
    by (simp add: sim_isArray [OF h v])
  from sim_opt_get [OF h v, of accessor] obtain v' where
    "sbind (the_key (SStr accessor)) (s_opt_get v) st = Inr (v', st)"
    "repr h v' (chained t accessor)"
    by blast
  with snot False h show ?thesis
    by (auto simp: s_finalValue_def finalValue_plain intro: grows_refl)
qed

lemma cell_at_update:
  "cell_at (st[a := c]) q = (if q = a \<and> a < length st then Some c else cell_at st q)"
  by (simp add: cell_at_def)

lemma tracks_update: "tracks h st \<Longrightarrow> a \<notin> dom h \<Longrightarrow> tracks h (st[a := c])"
  by (auto simp: tracks_def map_le_def cell_at_update)

lemma grows_cell_at: "grows h st h' st' \<Longrightarrow> q < length st \<Longrightarrow> cell_at st' q = cell_at st q"
  by (auto simp: grows_def prefix_def cell_at_def nth_append)

lemma grows_length: "grows h st h' st' \<Longrightarrow> length st \<le> length st'"
  by (auto simp: grows_def prefix_def)

lemma grows_dom: "grows h st h' st' \<Longrightarrow> a < length st \<Longrightarrow> a \<notin> dom h \<Longrightarrow> a \<notin> dom h'"
  by (auto simp: grows_def)

lemma grows_le: "grows h st h' st' \<Longrightarrow> h \<subseteq>\<^sub>m h'"
  by (simp add: grows_def)

lemma cell_at_length: "cell_at st a = Some c \<Longrightarrow> a < length st"
  by (simp add: cell_at_def split: if_splits)

lemma read_array_ref:
  "cell_at st a = Some (ArrayCell xs) \<Longrightarrow> read_array (SRef a) st = Inr (xs, st)"
  by (simp add: read_array_def array_at_def)

lemma length_ref:
  "cell_at st a = Some (ArrayCell xs) \<Longrightarrow>
   s_get_prop (SRef a) ''length'' st = Inr (SNum (of_nat (length xs)), st)"
  by (simp add: s_get_prop_def)

text \<open>One iteration of the loop over the paths, on an array of keys and a results array
  that the tracked part of the store does not contain.\<close>

lemma sim_body:
  assumes h: "tracks h st" and obj: "repr h obj t"
    and p: "cell_at st p = Some (ArrayCell (map SStr ks))" and pfree: "p \<notin> dom h"
    and ra: "cell_at st ra = Some (ArrayCell rs)" and rafree: "ra \<notin> dom h" and ne: "ra \<noteq> p"
    and rs: "list_all2 (repr h) rs tres"
  shows "\<exists>st' h' rs' ro. s_body obj (SRef ra) (SRef p) st = Inr ((), st') \<and>
           pathResult t ks = Inr ro \<and>
           tracks h' st' \<and> h \<subseteq>\<^sub>m h' \<and> dom h' \<subseteq> dom h \<union> {a. length st \<le> a} \<and>
           length st \<le> length st' \<and>
           cell_at st' ra = Some (ArrayCell rs') \<and>
           list_all2 (repr h') rs' (tres @ (case ro of None \<Rightarrow> [] | Some tv \<Rightarrow> [tv])) \<and>
           (\<forall>q. q < length st \<longrightarrow> q \<noteq> p \<longrightarrow> q \<noteq> ra \<longrightarrow> cell_at st' q = cell_at st q)"
proof (cases "ks = []")
  case True
  have "s_body obj (SRef ra) (SRef p) st = Inr ((), st)"
    using length_ref [OF p] by (simp add: s_body_def sbind_def True sreturn_def)
  moreover have "pathResult t ks = Inr None"
    by (simp add: pathResult_def True)
  ultimately show ?thesis
    using h ra rs by (intro exI [of _ st] exI [of _ h] exI [of _ rs] exI [of _ None]) simp
next
  case False
  let ?acc = "last ks"
  let ?st1 = "st[p := ArrayCell (map SStr (butlast ks))]"
  from p have plen: "p < length st" by (rule cell_at_length)
  from ra have ralen: "ra < length st" by (rule cell_at_length)
  have rd: "s_get_prop (SRef p) ''length'' st = Inr (SNum (of_nat (length ks)), st)"
    using length_ref [OF p] by simp
  from False have nz: "SNum (of_nat (length ks)) \<noteq> SNum 0"
    by simp
  have pop: "s_pop (SRef p) st = Inr (SStr ?acc, ?st1)"
    using False by (simp add: s_pop_def p last_map map_butlast)
  have h1: "tracks h ?st1"
    by (rule tracks_update [OF h pfree])
  have p1: "cell_at ?st1 p = Some (ArrayCell (map SStr (butlast ks)))"
    using plen by (simp add: cell_at_update)
  have ra1: "cell_at ?st1 ra = Some (ArrayCell rs)"
    using ra ne by (simp add: cell_at_update)
  from sim_traverse_loop [OF h1 obj, of "butlast ks"] obtain v st2 h2 t2 where
    tr: "s_traverse_loop obj (map SStr (butlast ks)) ?st1 = Inr (v, st2)"
    and ptr: "traverse_loop t (butlast ks) = Inr t2"
    and g2: "grows h ?st1 h2 st2" and v: "repr h2 v t2"
    by blast
  have trav: "s_traverseBasedOnPath obj (SRef p) ?st1 = Inr (v, st2)"
    using read_array_ref [OF p1] tr by (simp add: s_traverseBasedOnPath_def sbind_def)
  have ra2: "cell_at st2 ra = Some (ArrayCell rs)"
    using grows_cell_at [OF g2, of ra] ralen ra1 by simp
  have rafree2: "ra \<notin> dom h2"
    using grows_dom [OF g2, of ra] ralen rafree by simp
  have len2: "length st \<le> length st2"
    using grows_length [OF g2] by simp
  have dom2: "dom h2 \<subseteq> dom h \<union> {a. length st \<le> a}"
    using g2 by (simp add: grows_def)
  have same2: "cell_at st2 q = cell_at st q" if "q < length st" "q \<noteq> p" "q \<noteq> ra" for q
    using grows_cell_at [OF g2, of q] that by (simp add: cell_at_update)
  have rs2: "list_all2 (repr h2) rs tres"
    using rs by (rule list_all2_mono) (rule grows_repr [OF g2])
  show ?thesis
  proof (cases "t2 = JUndefined")
    case True
    with v have "v = SUndefined" by (simp add: sim_undefined)
    then have "s_body obj (SRef ra) (SRef p) st = Inr ((), st2)"
      using rd pop trav nz by (simp add: s_body_def sbind_def sreturn_def)
    moreover have "pathResult t ks = Inr None"
      using False ptr True by (simp add: pathResult_def traverseBasedOnPath_def)
    ultimately show ?thesis
      using grows_tracks [OF g2] grows_le [OF g2] dom2 len2 ra2 rs2 same2
      by (intro exI [of _ st2] exI [of _ h2] exI [of _ rs] exI [of _ None]) simp
  next
    case def: False
    with v have vdef: "v \<noteq> SUndefined" by (simp add: sim_undefined)
    from sim_finalValue [OF grows_tracks [OF g2] v, of ?acc] obtain fv st3 h3 tv where
      fin: "s_finalValue v (SStr ?acc) st2 = Inr (fv, st3)"
      and pfin: "finalValue t2 ?acc = Inr tv"
      and g3: "grows h2 st2 h3 st3" and fv: "repr h3 fv tv"
      by blast
    have ra3: "cell_at st3 ra = Some (ArrayCell rs)"
      using grows_cell_at [OF g3, of ra] ralen len2 ra2 by simp
    have rafree3: "ra \<notin> dom h3"
      using grows_dom [OF g3, of ra] ralen len2 rafree2 by simp
    have len3: "length st \<le> length st3"
      using grows_length [OF g3] len2 by simp
    have "dom h3 \<subseteq> dom h2 \<union> {a. length st2 \<le> a}"
      using g3 by (simp add: grows_def)
    moreover from len2 have "{a. length st2 \<le> a} \<subseteq> {a. length st \<le> a}"
      by auto
    ultimately have dom3: "dom h3 \<subseteq> dom h \<union> {a. length st \<le> a}"
      using dom2 by blast
    have same3: "cell_at st3 q = cell_at st q" if "q < length st" "q \<noteq> p" "q \<noteq> ra" for q
      using grows_cell_at [OF g3, of q] same2 [OF that] that(1) len2 by simp
    have rs3: "list_all2 (repr h3) rs tres"
      using rs2 by (rule list_all2_mono) (rule grows_repr [OF g3])
    have le3: "h \<subseteq>\<^sub>m h3"
      using grows_le [OF g2] grows_le [OF g3] by (rule map_le_trans)
    show ?thesis
    proof (cases "tv = JUndefined")
      case True
      with fv have "fv = SUndefined" by (simp add: sim_undefined)
      then have "s_body obj (SRef ra) (SRef p) st = Inr ((), st3)"
        using rd pop trav fin nz vdef by (simp add: s_body_def sbind_def sreturn_def)
      moreover have "pathResult t ks = Inr None"
        using False ptr def pfin True by (simp add: pathResult_def traverseBasedOnPath_def)
      ultimately show ?thesis
        using grows_tracks [OF g3] le3 dom3 len3 ra3 rs3 same3
        by (intro exI [of _ st3] exI [of _ h3] exI [of _ rs] exI [of _ None]) simp
    next
      case present: False
      with fv have fvdef: "fv \<noteq> SUndefined" by (simp add: sim_undefined)
      let ?st4 = "st3[ra := ArrayCell (rs @ [fv])]"
      have push: "s_push (SRef ra) fv st3 = Inr ((), ?st4)"
        by (simp add: s_push_def ra3)
      have "s_body obj (SRef ra) (SRef p) st = Inr ((), ?st4)"
        using rd pop trav fin push nz vdef fvdef
        by (simp add: s_body_def sbind_def sreturn_def)
      moreover have "pathResult t ks = Inr (Some tv)"
        using False ptr def pfin present by (simp add: pathResult_def traverseBasedOnPath_def)
      moreover have "tracks h3 ?st4"
        by (rule tracks_update [OF grows_tracks [OF g3] rafree3])
      moreover have "cell_at ?st4 ra = Some (ArrayCell (rs @ [fv]))"
        using ralen len3 by (simp add: cell_at_update)
      moreover have "list_all2 (repr h3) (rs @ [fv]) (tres @ [tv])"
        using rs3 fv by (simp add: list_all2_appendI)
      moreover have "cell_at ?st4 q = cell_at st q" if "q < length st" "q \<noteq> p" "q \<noteq> ra" for q
        using same3 [OF that] that(3) by (simp add: cell_at_update)
      ultimately show ?thesis
        using le3 dom3 len3
        by (intro exI [of _ ?st4] exI [of _ h3] exI [of _ "rs @ [fv]"] exI [of _ "Some tv"]) simp
    qed
  qed
qed

lemma sim_collect:
  "list_all2 (\<lambda>p ks. cell_at st p = Some (ArrayCell (map SStr ks))) ps kss \<Longrightarrow>
   tracks h st \<Longrightarrow> repr h obj t \<Longrightarrow>
   \<forall>p\<in>set ps. p \<notin> dom h \<and> p \<noteq> ra \<Longrightarrow> distinct ps \<Longrightarrow>
   cell_at st ra = Some (ArrayCell rs) \<Longrightarrow> ra \<notin> dom h \<Longrightarrow> list_all2 (repr h) rs tres \<Longrightarrow>
   \<exists>st' h' rs' tres'. s_collect obj (SRef ra) (map SRef ps) st = Inr ((), st') \<and>
      collect t kss tres = Inr tres' \<and> tracks h' st' \<and> h \<subseteq>\<^sub>m h' \<and> ra \<notin> dom h' \<and>
      cell_at st' ra = Some (ArrayCell rs') \<and> list_all2 (repr h') rs' tres'"
proof (induction ps arbitrary: kss st h rs tres)
  case Nil
  then show ?case
    by (auto simp: sreturn_def)
next
  case (Cons p ps)
  from Cons.prems(1) obtain ks kss' where kss: "kss = ks # kss'"
    and p: "cell_at st p = Some (ArrayCell (map SStr ks))"
    and rest: "list_all2 (\<lambda>p ks. cell_at st p = Some (ArrayCell (map SStr ks))) ps kss'"
    by (auto simp: list_all2_Cons1)
  from Cons.prems have pfree: "p \<notin> dom h" and ne: "ra \<noteq> p"
    by auto
  from sim_body [OF Cons.prems(2) Cons.prems(3) p pfree Cons.prems(6) Cons.prems(7) ne
      Cons.prems(8)]
  obtain st1 h1 rs1 ro where
    body: "s_body obj (SRef ra) (SRef p) st = Inr ((), st1)"
    and pbody: "pathResult t ks = Inr ro"
    and h1: "tracks h1 st1" and le1: "h \<subseteq>\<^sub>m h1"
    and dom1: "dom h1 \<subseteq> dom h \<union> {a. length st \<le> a}"
    and len1: "length st \<le> length st1"
    and ra1: "cell_at st1 ra = Some (ArrayCell rs1)"
    and rs1: "list_all2 (repr h1) rs1 (tres @ (case ro of None \<Rightarrow> [] | Some tv \<Rightarrow> [tv]))"
    and same: "\<forall>q. q < length st \<longrightarrow> q \<noteq> p \<longrightarrow> q \<noteq> ra \<longrightarrow> cell_at st1 q = cell_at st q"
    by blast
  have lens: "q < length st" if "q \<in> set ps" for q
    using rest that by (auto simp: list_all2_conv_all_nth in_set_conv_nth dest: cell_at_length)
  have other: "q \<noteq> p \<and> q \<noteq> ra \<and> q \<notin> dom h" if "q \<in> set ps" for q
    using Cons.prems(4,5) that by auto
  have paths1: "list_all2 (\<lambda>p ks. cell_at st1 p = Some (ArrayCell (map SStr ks))) ps kss'"
    using rest same lens other
    by (auto simp: list_all2_conv_all_nth)
  have free1: "\<forall>q\<in>set ps. q \<notin> dom h1 \<and> q \<noteq> ra"
    using dom1 lens other by fastforce
  have rafree1: "ra \<notin> dom h1"
    using dom1 Cons.prems(7) cell_at_length [OF Cons.prems(6)] by fastforce
  from Cons.prems(5) have dist: "distinct ps"
    by simp
  from Cons.IH [OF paths1 h1 repr_mono [OF Cons.prems(3) le1] free1 dist ra1 rafree1 rs1]
  obtain st' h' rs' tres' where
    loop: "s_collect obj (SRef ra) (map SRef ps) st1 = Inr ((), st')"
    and ploop: "collect t kss' (tres @ (case ro of None \<Rightarrow> [] | Some tv \<Rightarrow> [tv])) = Inr tres'"
    and fin: "tracks h' st'" "h1 \<subseteq>\<^sub>m h'" "ra \<notin> dom h'" "cell_at st' ra = Some (ArrayCell rs')"
      "list_all2 (repr h') rs' tres'"
    by blast
  have "s_collect obj (SRef ra) (map SRef (p # ps)) st = Inr ((), st')"
    using body loop by (simp add: sbind_def)
  moreover have "collect t kss tres = Inr tres'"
    using pbody ploop by (cases ro) (simp_all add: kss)
  ultimately show ?case
    using fin map_le_trans [OF le1 fin(2)] by blast
qed

lemma upt_shift: "[n ..< n + Suc k] = n # [Suc n ..< Suc n + k]"
  by (simp add: upt_conv_Cons del: upt_Suc)

lemma s_map_loop_split:
  "s_map_loop s_split (map SStr ss) st =
     Inr (map SRef [length st ..< length st + length ss], st @ map key_cell ss)"
proof (induction ss arbitrary: st)
  case Nil
  show ?case by (simp add: sreturn_def)
next
  case (Cons s ss)
  have "s_split (SStr s) st = Inr (SRef (length st), st @ [key_cell s])"
    by (simp add: s_split_def alloc_def key_cell_def)
  with Cons.IH [of "st @ [key_cell s]"] show ?case
    using upt_shift [of "length st" "length ss"]
    by (simp add: sbind_def sreturn_def del: upt_Suc)
qed

lemma s_allPaths_result:
  assumes "paths_repr st paths parg"
  shows "\<exists>ss. allPaths parg = map split_slash ss \<and>
           s_allPaths paths st =
             Inr (SRef (length st + length ss),
                  st @ map key_cell ss @ [ArrayCell (map SRef [length st ..< length st + length ss])])"
proof (cases parg)
  case (PathString s)
  with assms have "paths = SStr s"
    by (simp add: paths_repr_def)
  then have "s_allPaths paths st =
      Inr (SRef (length st + length [s]),
           st @ map key_cell [s] @ [ArrayCell (map SRef [length st ..< length st + length [s]])])"
    by (simp add: s_allPaths_def s_isArray_def array_at_def s_split_def alloc_def sbind_def
        key_cell_def)
  moreover have "allPaths parg = map split_slash [s]"
    by (simp add: allPaths_def PathString)
  ultimately show ?thesis by blast
next
  case (PathArray ss)
  with assms have arr: "array_at st paths = Some (map SStr ss)"
    by (simp add: paths_repr_def)
  then have "s_allPaths paths st =
      Inr (SRef (length st + length ss),
           st @ map key_cell ss @ [ArrayCell (map SRef [length st ..< length st + length ss])])"
    by (simp add: s_allPaths_def s_isArray_def s_map_def sbind_def s_map_loop_split alloc_def)
  moreover have "allPaths parg = map split_slash ss"
    by (simp add: allPaths_def PathArray)
  ultimately show ?thesis by blast
qed

lemma dom_cell_at: "dom (cell_at st) = {a. a < length st}"
  by (auto simp: cell_at_def split: if_splits)

lemma store_query_agrees:
  assumes obj: "repr (cell_at st) obj t" and paths: "paths_repr st paths parg"
  shows "\<exists>r st' t'. s_getValuesFromObjectByPath obj paths st = Inr (r, st') \<and>
           getValuesFromObjectByPath t parg = Inr t' \<and> repr (cell_at st') r t'"
proof -
  let ?n = "length st"
  from s_allPaths_result [OF paths] obtain ss where
    pure_paths: "allPaths parg = map split_slash ss"
    and ap: "s_allPaths paths st =
        Inr (SRef (?n + length ss),
             st @ map key_cell ss @ [ArrayCell (map SRef [?n ..< ?n + length ss])])"
    by blast
  let ?k = "length ss"
  let ?ps = "[?n ..< ?n + ?k]"
  let ?st1 = "st @ map key_cell ss @ [ArrayCell (map SRef ?ps)]"
  let ?ra = "Suc (?n + ?k)"
  let ?st2 = "?st1 @ [ArrayCell []]"
  have len1: "length ?st1 = ?ra" by simp
  have res: "alloc (ArrayCell []) ?st1 = Inr (SRef ?ra, ?st2)"
    by (simp add: alloc_def)
  have rd: "read_array (SRef (?n + ?k)) ?st2 = Inr (map SRef ?ps, ?st2)"
    by (simp add: read_array_def array_at_def cell_at_def nth_append)
  have keys: "list_all2 (\<lambda>p ks. cell_at ?st2 p = Some (ArrayCell (map SStr ks))) ?ps
      (map split_slash ss)"
    by (simp add: list_all2_conv_all_nth cell_at_def nth_append key_cell_def)
  have tr: "tracks (cell_at st) ?st2"
    unfolding tracks_def by (rule cell_at_prefix) simp
  have free: "\<forall>p\<in>set ?ps. p \<notin> dom (cell_at st) \<and> p \<noteq> ?ra"
    by (simp add: dom_cell_at)
  have ra: "cell_at ?st2 ?ra = Some (ArrayCell [])"
    by (simp add: cell_at_def nth_append)
  have rafree: "?ra \<notin> dom (cell_at st)"
    by (simp add: dom_cell_at)
  from sim_collect [OF keys tr obj free distinct_upt ra rafree, of "[]"]
  obtain st' h' rs' tres' where
    loop: "s_collect obj (SRef ?ra) (map SRef ?ps) ?st2 = Inr ((), st')"
    and ploop: "collect t (map split_slash ss) [] = Inr tres'"
    and h': "tracks h' st'" and rafree': "?ra \<notin> dom h'"
    and ra': "cell_at st' ?ra = Some (ArrayCell rs')"
    and rs': "list_all2 (repr h') rs' tres'"
    by blast
  let ?r = "if length rs' > 1 then SRef ?ra else (case rs' of [] \<Rightarrow> SUndefined | r # _ \<Rightarrow> r)"
  have ret: "s_returnValue (SRef ?ra) st' = Inr (?r, st')"
    using read_array_ref [OF ra'] by (simp add: s_returnValue_def sbind_def sreturn_def)
  have run: "s_getValuesFromObjectByPath obj paths st = Inr (?r, st')"
    unfolding s_getValuesFromObjectByPath_def
    by (rule sbind_step [where m = "s_allPaths paths", OF ap],
        rule sbind_step [where m = "alloc (ArrayCell [])", OF res],
        rule sbind_step [where m = "read_array (SRef (?n + ?k))", OF rd],
        rule sbind_step [where m = "s_collect obj (SRef ?ra) (map SRef ?ps)", OF loop],
        rule ret)
  have pure: "getValuesFromObjectByPath t parg = Inr (returnValue tres')"
    by (simp add: getValuesFromObjectByPath_def pure_paths ploop)
  have le: "h' \<subseteq>\<^sub>m cell_at st'"
    using h' by (simp add: tracks_def)
  have "repr (cell_at st') ?r (returnValue tres')"
  proof (cases "length rs' > 1")
    case True
    let ?h = "h'(?ra \<mapsto> ArrayCell rs')"
    have up: "h' \<subseteq>\<^sub>m ?h"
      using rafree' by (auto simp: map_le_def)
    have "list_all2 (repr ?h) rs' tres'"
      using rs' by (rule list_all2_mono) (rule repr_mono [OF _ up])
    then have "repr ?h (SRef ?ra) (JArr tres')"
      by (intro repr_array) simp_all
    moreover have "?h \<subseteq>\<^sub>m cell_at st'"
      using le ra' by (auto simp: map_le_def)
    ultimately have "repr (cell_at st') (SRef ?ra) (JArr tres')"
      by (rule repr_mono)
    with True list_all2_lengthD [OF rs'] show ?thesis
      by (simp add: returnValue_def)
  next
    case False
    show ?thesis
    proof (cases rs')
      case Nil
      with rs' show ?thesis
        by (simp add: returnValue_def repr.intros)
    next
      case (Cons r rest)
      with False have one: "rs' = [r]" by (cases rest) simp_all
      with rs' obtain tr where "tres' = [tr]" "repr h' r tr"
        by (auto simp: list_all2_Cons1)
      with one repr_mono [OF _ le] show ?thesis
        by (simp add: returnValue_def)
    qed
  qed
  with run pure show ?thesis
    by blast
qed

lemma paths_repr_prefix: "paths_repr st paths parg \<Longrightarrow> prefix st st' \<Longrightarrow> paths_repr st' paths parg"
  by (cases parg) (auto simp: paths_repr_def prefix_def array_at_append)

lemmas store_defs = s_getValuesFromObjectByPath_def s_allPaths_def s_isArray_def array_at_def
  cell_at_def s_map_def sbind_def sreturn_def s_split_def alloc_def read_array_def s_body_def
  s_get_prop_def s_pop_def s_traverseBasedOnPath_def s_opt_get_def s_finalValue_def
  s_filter_def s_push_def s_returnValue_def s_flat_def nth_append

lemma example_repr: "repr (cell_at example_store) (SRef 4) example_doc"
proof -
  have e0: "repr (cell_at example_store) (SRef 0) (JObj [(''v'', JNum 1)])"
    by (rule repr_object [where kvs = "[(''v'', SNum 1)]"])
      (simp_all add: example_store_def cell_at_def repr.intros)
  have e1: "repr (cell_at example_store) (SRef 1) (JObj [(''v'', JNum 2)])"
    by (rule repr_object [where kvs = "[(''v'', SNum 2)]"])
      (simp_all add: example_store_def cell_at_def repr.intros)
  have e2: "repr (cell_at example_store) (SRef 2) (JObj [(''v'', JNum 0)])"
    by (rule repr_object [where kvs = "[(''v'', SNum 0)]"])
      (simp_all add: example_store_def cell_at_def repr.intros)
  have e3: "repr (cell_at example_store) (SRef 3)
      (JArr [JObj [(''v'', JNum 1)], JObj [(''v'', JNum 2)], JObj [(''v'', JNum 0)]])"
    by (rule repr_array [where vs = "[SRef 0, SRef 1, SRef 2]"])
      (simp_all add: e0 e1 e2 del: One_nat_def, simp add: example_store_def cell_at_def)
  show ?thesis
    unfolding example_doc_def
    by (rule repr_object [where kvs = "[(''items'', SRef 3), (''a'', SNull)]"])
      (simp_all add: e3 repr.intros, simp add: example_store_def cell_at_def)
qed

section \<open>Facts about inherited properties\<close>

subsection \<open>Paths of safe keys\<close>

lemma ebind_assoc: "ebind (ebind m f) g = ebind m (\<lambda>x. ebind (f x) g)"
  by (cases m) simp_all

lemma isArray_h_iff: "isArray_h H v \<longleftrightarrow> (\<exists>xs. array_elements H v = Some xs)"
  by (simp add: isArray_h_def)

lemma opt_get_h_safe: "safe_key H k \<Longrightarrow> \<exists>r. opt_get_h H v k = Inr r"
  by (auto simp: opt_get_h_def get_prop_h_def safe_key_def split: option.splits)

lemma map_err_total: "(\<And>x. \<exists>y. f x = Inr y) \<Longrightarrow> \<exists>ys. map_err f xs = Inr ys"
proof (induction xs)
  case Nil
  show ?case by simp
next
  case (Cons x xs)
  from Cons.prems obtain y where "f x = Inr y" by blast
  moreover from Cons obtain ys where "map_err f xs = Inr ys" by blast
  ultimately show ?case by simp
qed

text \<open>The three array methods in a row, on an array.\<close>

lemma map_filter_flat_h:
  "array_elements H current = Some xs \<Longrightarrow> map_err f xs = Inr ys \<Longrightarrow>
   ebind (ebind (js_map_h H f current) (js_filter_h H p)) (js_flat_h H) =
     Inr (JArr (flatten_into_h H (filter p ys)))"
  by (simp add: js_map_h_def js_filter_h_def js_flat_h_def)

lemma map_filter_h:
  "array_elements H current = Some xs \<Longrightarrow> map_err f xs = Inr ys \<Longrightarrow>
   ebind (js_map_h H f current) (js_filter_h H p) = Inr (JArr (filter p ys))"
  by (simp add: js_map_h_def js_filter_h_def)

lemma map_raises_h:
  "array_elements H current = Some xs \<Longrightarrow> map_err f xs = Inl e \<Longrightarrow>
   js_map_h H f current = Inl e"
  by (simp add: js_map_h_def)

lemma traverse_loop_h_nullish:
  "current = JUndefined \<or> current = JNull \<Longrightarrow> traverse_loop_h H current keys = Inr current"
  by (cases keys) auto

lemma traverse_loop_h_total:
  "list_all (safe_key H) keys \<Longrightarrow> \<exists>c. traverse_loop_h H current keys = Inr c"
proof (induction keys arbitrary: current)
  case Nil
  show ?case by simp
next
  case (Cons key keys)
  then have key: "safe_key H key" and keys: "list_all (safe_key H) keys"
    by simp_all
  note IH = Cons.IH [OF keys]
  show ?case
  proof (cases "current = JUndefined \<or> current = JNull")
    case True
    then show ?thesis by (simp add: traverse_loop_h_nullish)
  next
    case live: False
    show ?thesis
    proof (cases "isArray_h H current")
      case True
      then obtain xs where xs: "array_elements H current = Some xs"
        by (auto simp: isArray_h_iff)
      show ?thesis
      proof (cases "key = ''[n]''")
        case True
        have "map_err (\<lambda>item. Inr item) xs = Inr xs"
          by (simp add: map_err_Inr)
        from map_filter_flat_h [OF xs this] live True \<open>isArray_h H current\<close> IH show ?thesis
          by simp
      next
        case False
        obtain ys where "map_err (\<lambda>item. opt_get_h H item key) xs = Inr ys"
          using map_err_total [of "\<lambda>item. opt_get_h H item key"] opt_get_h_safe [OF key] by blast
        from map_filter_flat_h [OF xs this] live False \<open>isArray_h H current\<close> IH show ?thesis
          by simp
      qed
    next
      case scalar: False
      show ?thesis
      proof (cases "key = ''[n]''")
        case True
        with scalar live show ?thesis by simp
      next
        case False
        obtain r where "opt_get_h H current key = Inr r"
          using opt_get_h_safe [OF key] by blast
        with scalar live False IH show ?thesis by simp
      qed
    qed
  qed
qed

lemma traverse_loop_h_append:
  "traverse_loop_h H current (pre @ post) =
     ebind (traverse_loop_h H current pre) (\<lambda>c. traverse_loop_h H c post)"
proof (induction pre arbitrary: current)
  case Nil
  show ?case by simp
next
  case (Cons key keys)
  show ?case
  proof (cases "current = JUndefined \<or> current = JNull")
    case True
    then show ?thesis by (auto simp: traverse_loop_h_nullish)
  next
    case live: False
    show ?thesis
    proof (cases "key = ''[n]'' \<and> \<not> isArray_h H current")
      case True
      with live show ?thesis by (simp add: traverse_loop_h_nullish)
    next
      case False
      with live show ?thesis
        by (simp add: Cons.IH ebind_assoc)
    qed
  qed
qed

lemma finalValue_h_nullish:
  "c = JUndefined \<or> c = JNull \<Longrightarrow> finalValue_h H c accessor = Inr JUndefined"
  by (auto simp: finalValue_h_def opt_get_h_def isArray_h_def)

lemma finalValue_h_plain:
  "\<not> isArray_h H c \<Longrightarrow> finalValue_h H c accessor = opt_get_h H c accessor"
  by (simp add: finalValue_h_def)

lemma finalValue_h_array:
  assumes "isArray_h H c" and "safe_key H accessor"
  shows "\<exists>ys. finalValue_h H c accessor = Inr (JArr ys)"
proof -
  from assms(1) obtain xs where xs: "array_elements H c = Some xs"
    by (auto simp: isArray_h_iff)
  obtain ys where "map_err (\<lambda>item. opt_get_h H item accessor) xs = Inr ys"
    using map_err_total [of "\<lambda>item. opt_get_h H item accessor"] opt_get_h_safe [OF assms(2)]
    by blast
  from map_filter_h [OF xs this] assms(1) show ?thesis
    by (simp add: finalValue_h_def)
qed

lemma finalValue_h_total: "safe_key H accessor \<Longrightarrow> \<exists>v. finalValue_h H c accessor = Inr v"
  using finalValue_h_array [of H c accessor] opt_get_h_safe [of H accessor c]
  by (cases "isArray_h H c") (auto simp: finalValue_h_plain)

lemma pathResult_h_snoc:
  "traverse_loop_h H obj keys = Inr c \<Longrightarrow> finalValue_h H c accessor = Inr v \<Longrightarrow>
   pathResult_h H obj (keys @ [accessor]) =
     Inr (if c \<noteq> JUndefined \<and> v \<noteq> JUndefined then Some v else None)"
  by (simp add: pathResult_h_def traverseBasedOnPath_h_def)

lemma pathResult_h_total:
  assumes "list_all (safe_key H) pathKeys"
  shows "\<exists>r. pathResult_h H obj pathKeys = Inr r"
proof (cases "pathKeys = []")
  case True
  then show ?thesis by (simp add: pathResult_h_def)
next
  case False
  with assms have "list_all (safe_key H) (butlast pathKeys)" and acc: "safe_key H (last pathKeys)"
    by (auto simp: list_all_iff dest: in_set_butlastD)
  from traverse_loop_h_total [OF this(1)] obtain c where
    c: "traverse_loop_h H obj (butlast pathKeys) = Inr c"
    by blast
  from finalValue_h_total [OF acc] obtain v where v: "finalValue_h H c (last pathKeys) = Inr v"
    by blast
  from pathResult_h_snoc [OF c v] False show ?thesis
    by simp
qed

lemma map_err_pathResult_h_total:
  "list_all (safe_key H) (concat pks) \<Longrightarrow> \<exists>rs. map_err (pathResult_h H obj) pks = Inr rs"
proof (induction pks)
  case Nil
  show ?case by simp
next
  case (Cons pk pks)
  then obtain rs where rs: "map_err (pathResult_h H obj) pks = Inr rs" by auto
  from Cons.prems obtain r where r: "pathResult_h H obj pk = Inr r"
    using pathResult_h_total [of H pk obj] by auto
  show ?case by (simp add: r rs)
qed

lemma collect_h_map_err:
  "map_err (pathResult_h H obj) pks = Inr rs \<Longrightarrow>
   collect_h H obj pks results = Inr (results @ List.map_filter (\<lambda>r. r) rs)"
proof (induction pks arbitrary: results rs)
  case Nil
  then show ?case by simp
next
  case (Cons pk pks)
  from Cons.prems obtain r rs' where r: "pathResult_h H obj pk = Inr r"
    and rs': "map_err (pathResult_h H obj) pks = Inr rs'" and rs: "rs = r # rs'"
    by (auto split: sum.splits)
  show ?case
    by (cases r) (simp_all add: r rs Cons.IH [OF rs'])
qed

lemma extract_h_total:
  assumes "list_all (safe_key H) (concat (allPaths paths))"
  shows "\<exists>r. getValuesFromObjectByPath_h H obj paths = Inr r"
proof -
  from map_err_pathResult_h_total [OF assms] obtain rs where
    "map_err (pathResult_h H obj) (allPaths paths) = Inr rs"
    by blast
  from collect_h_map_err [OF this] show ?thesis
    by (simp add: getValuesFromObjectByPath_h_def)
qed

lemma single_path_h:
  "pathResult_h H obj (split_slash p) = Inr r \<Longrightarrow>
   getValuesFromObjectByPath_h H obj (PathString p) =
     Inr (case r of None \<Rightarrow> JUndefined | Some v \<Rightarrow> v)"
  by (cases r) (simp_all add: getValuesFromObjectByPath_h_def allPaths_def returnValue_def)

lemma collect_h_omit:
  "pathResult_h H obj pk = Inr None \<Longrightarrow>
   collect_h H obj (pks @ pk # pks') results = collect_h H obj (pks @ pks') results"
proof (induction pks arbitrary: results)
  case Nil
  then show ?case by simp
next
  case (Cons q pks)
  show ?case
  proof (cases "pathResult_h H obj q")
    case (Inl e)
    then show ?thesis by simp
  next
    case (Inr r)
    with Cons show ?thesis by (cases r) simp_all
  qed
qed

lemma omitted_path_h:
  "pathResult_h H obj (split_slash p) = Inr None \<Longrightarrow>
   getValuesFromObjectByPath_h H obj (PathArray (ps @ p # ps')) =
   getValuesFromObjectByPath_h H obj (PathArray (ps @ ps'))"
  by (simp add: getValuesFromObjectByPath_h_def allPaths_def collect_h_omit)

lemma kept_path_h:
  assumes p: "pathResult_h H obj (split_slash p) = Inr (Some v)"
    and safe: "list_all (safe_key H) (concat (map split_slash (ps @ ps')))"
  shows "\<exists>r. getValuesFromObjectByPath_h H obj (PathArray (ps @ p # ps')) = Inr r \<and>
           (r = v \<or> (\<exists>rs. r = JArr rs \<and> v \<in> set rs))"
proof -
  from safe have "list_all (safe_key H) (concat (map split_slash ps))"
    and "list_all (safe_key H) (concat (map split_slash ps'))"
    by simp_all
  from map_err_pathResult_h_total [OF this(1)] map_err_pathResult_h_total [OF this(2)]
  obtain rs rs' where rs: "map_err (pathResult_h H obj) (map split_slash ps) = Inr rs"
    and rs': "map_err (pathResult_h H obj) (map split_slash ps') = Inr rs'"
    by blast
  have one: "map_err (pathResult_h H obj) (split_slash p # map split_slash ps') = Inr (Some v # rs')"
    by (simp add: p rs')
  have "map_err (pathResult_h H obj) (map split_slash ps @ split_slash p # map split_slash ps') =
      Inr (rs @ Some v # rs')"
    using map_err_append [OF rs one] .
  from collect_h_map_err [OF this, of "[]"]
  have "getValuesFromObjectByPath_h H obj (PathArray (ps @ p # ps')) =
      Inr (returnValue (List.map_filter (\<lambda>r. r) rs @ v # List.map_filter (\<lambda>r. r) rs'))"
    by (simp add: getValuesFromObjectByPath_h_def allPaths_def List.map_filter_def)
  then show ?thesis
    by (auto simp: returnValue_with)
qed


subsection \<open>Paths of plain keys\<close>

text \<open>
  On JSON data and under plain keys every read is a read of an own property, and every
  value met on the way is JSON data again. So there the functions of this section compute
  what the functions of the path query compute: the model of own properties is exact on
  every JSON document for every path none of whose segments names an inherited property.
\<close>

lemma own_prop_lookup: "own_prop v k = (case own_lookup v k of Some x \<Rightarrow> x | None \<Rightarrow> JUndefined)"
  by (cases v) (simp_all split: option.splits)

lemma json_own_prop: "json v \<Longrightarrow> json (own_prop v k)"
proof (cases v)
  case (JObj kvs)
  assume "json v"
  with JObj have "list_all (\<lambda>kv. json (snd kv)) kvs" by simp
  then have "json x" if "map_of kvs k = Some x" for x
    using that by (auto simp: list_all_iff dest!: map_of_SomeD)
  with JObj show ?thesis by (simp split: option.splits)
next
  case (JArr xs)
  assume "json v"
  with JArr show ?thesis
    by (auto simp: list_all_iff split: option.splits)
qed (simp_all split: option.splits)

lemma get_prop_h_plain:
  "json v \<Longrightarrow> plain_key H k \<Longrightarrow> get_prop_h H v k = get_prop v k"
  by (simp add: get_prop_h_def get_prop_def own_prop_lookup plain_key_def split: option.splits)

lemma opt_get_h_plain:
  "json v \<Longrightarrow> plain_key H k \<Longrightarrow> opt_get_h H v k = Inr (chained v k)"
  by (simp add: opt_get_h_def get_prop_h_plain get_prop_def chained_def)

lemma json_chained: "json v \<Longrightarrow> json (chained v k)"
  by (simp add: chained_def json_own_prop)

lemma array_elements_json:
  "json v \<Longrightarrow> array_elements H v = (case v of JArr xs \<Rightarrow> Some xs | _ \<Rightarrow> None)"
  by (cases v) simp_all

lemma isArray_h_json: "json v \<Longrightarrow> isArray_h H v = isArray v"
  by (cases v) (simp_all add: isArray_h_def)

lemma Boolean_h_json: "json v \<Longrightarrow> Boolean_h H v = Boolean v"
  by (cases v) simp_all

lemma filter_Boolean_h_json: "list_all json xs \<Longrightarrow> filter (Boolean_h H) xs = filter Boolean xs"
  by (induction xs) (simp_all add: Boolean_h_json)

lemma flatten_into_h_json: "list_all json xs \<Longrightarrow> flatten_into_h H xs = flatten_into xs"
proof (induction xs)
  case Nil
  show ?case by simp
next
  case (Cons x xs)
  then show ?case by (cases x) simp_all
qed

lemma json_filter: "list_all json xs \<Longrightarrow> list_all json (filter p xs)"
  by (simp add: list_all_iff)

lemma json_flatten_into: "list_all json xs \<Longrightarrow> list_all json (flatten_into xs)"
proof (induction xs)
  case Nil
  show ?case by simp
next
  case (Cons x xs)
  then show ?case by (cases x) simp_all
qed

lemma map_err_opt_get_h_plain:
  "list_all json xs \<Longrightarrow> plain_key H k \<Longrightarrow>
   map_err (\<lambda>item. opt_get_h H item k) xs = Inr (map (\<lambda>item. chained item k) xs)"
  by (induction xs) (simp_all add: opt_get_h_plain)

lemma traverse_loop_h_plain:
  "json current \<Longrightarrow> list_all (plain_key H) keys \<Longrightarrow>
   traverse_loop_h H current keys = traverse_loop current keys \<and>
   (\<forall>c. traverse_loop current keys = Inr c \<longrightarrow> json c)"
proof (induction keys arbitrary: current)
  case Nil
  then show ?case by simp
next
  case (Cons key keys)
  then have key: "plain_key H key" and keys: "list_all (plain_key H) keys"
    by simp_all
  note cur = Cons.prems(1)
  show ?case
  proof (cases "current = JUndefined \<or> current = JNull")
    case True
    with cur show ?thesis by (auto simp: traverse_loop_h_nullish traverse_loop_nullish)
  next
    case live: False
    show ?thesis
    proof (cases "isArray current")
      case True
      then obtain xs where xs: "current = JArr xs" by (auto simp: isArray_iff)
      with cur have jx: "list_all json xs" by simp
      have el: "array_elements H current = Some xs" by (simp add: xs)
      show ?thesis
      proof (cases "key = ''[n]''")
        case True
        let ?next = "JArr (flatten_into (filter Boolean xs))"
        have j: "json ?next"
          using json_flatten_into [OF json_filter [OF jx]] by simp
        have "flatten_into_h H (filter (Boolean_h H) xs) = flatten_into (filter Boolean xs)"
          using flatten_into_h_json [OF json_filter [OF jx]] by (simp add: filter_Boolean_h_json [OF jx])
        with map_filter_flat_h [OF el map_err_Inr, of "Boolean_h H"]
        have "traverse_loop_h H current (key # keys) = traverse_loop_h H ?next keys"
          using True by (simp add: xs isArray_h_def)
        with Cons.IH [OF j keys] True show ?thesis
          unfolding xs
          by (simp add: traverse_loop_wildcard del: traverse_loop.simps traverse_loop_h.simps)
      next
        case False
        let ?ys = "map (\<lambda>item. chained item key) xs"
        let ?next = "JArr (flatten_into (filter Boolean ?ys))"
        have jy: "list_all json ?ys"
          using jx by (simp add: list_all_iff json_chained)
        have j: "json ?next"
          using json_flatten_into [OF json_filter [OF jy]] by simp
        have "flatten_into_h H (filter (Boolean_h H) ?ys) = flatten_into (filter Boolean ?ys)"
          using flatten_into_h_json [OF json_filter [OF jy]] by (simp add: filter_Boolean_h_json [OF jy])
        with map_filter_flat_h [OF el map_err_opt_get_h_plain [OF jx key], of "Boolean_h H"]
        have "traverse_loop_h H current (key # keys) = traverse_loop_h H ?next keys"
          using False by (simp add: xs isArray_h_def)
        with Cons.IH [OF j keys] False show ?thesis
          unfolding xs
          by (simp add: traverse_loop_array del: traverse_loop.simps traverse_loop_h.simps)
      qed
    next
      case scalar: False
      then have hscalar: "\<not> isArray_h H current"
        by (simp add: isArray_h_json [OF cur])
      show ?thesis
      proof (cases "key = ''[n]''")
        case True
        with scalar hscalar live show ?thesis by simp
      next
        case False
        have "traverse_loop_h H current (key # keys) = traverse_loop_h H (own_prop current key) keys"
          using live hscalar False opt_get_h_plain [OF cur key]
          by (simp add: chained_def)
        with Cons.IH [OF json_own_prop [OF cur] keys] traverse_loop_plain [OF False scalar]
          live
        show ?thesis by simp
      qed
    qed
  qed
qed

lemma finalValue_h_plain_key:
  assumes "json c" and "plain_key H accessor"
  shows "finalValue_h H c accessor = finalValue c accessor"
proof (cases "isArray c")
  case True
  then obtain xs where xs: "c = JArr xs" by (auto simp: isArray_iff)
  with assms have jx: "list_all json xs" by simp
  have "list_all json (map (\<lambda>item. chained item accessor) xs)"
    using jx by (simp add: list_all_iff json_chained)
  then have "filter (Boolean_h H) (map (\<lambda>item. chained item accessor) xs) =
      filter Boolean (map (\<lambda>item. chained item accessor) xs)"
    by (rule filter_Boolean_h_json)
  with map_filter_h [of H c xs, OF _ map_err_opt_get_h_plain [OF jx assms(2)], of "Boolean_h H"]
  show ?thesis
    by (simp add: xs finalValue_h_def finalValue_array isArray_h_def)
next
  case False
  with assms show ?thesis
    by (simp add: finalValue_h_def finalValue_plain isArray_h_json opt_get_h_plain)
qed

lemma pathResult_h_plain:
  assumes "json obj" and "list_all (plain_key H) pathKeys"
  shows "pathResult_h H obj pathKeys = pathResult obj pathKeys"
proof (cases "pathKeys = []")
  case True
  then show ?thesis by (simp add: pathResult_h_def pathResult_def)
next
  case False
  with assms(2) have keys: "list_all (plain_key H) (butlast pathKeys)"
    and acc: "plain_key H (last pathKeys)"
    by (auto simp: list_all_iff dest: in_set_butlastD)
  note t = traverse_loop_h_plain [OF assms(1) keys]
  obtain c where c: "traverse_loop obj (butlast pathKeys) = Inr c"
    using traverse_loop_total by blast
  with t have "json c" by blast
  from finalValue_h_plain_key [OF this acc] t c False show ?thesis
    by (simp add: pathResult_h_def pathResult_def traverseBasedOnPath_h_def
        traverseBasedOnPath_def)
qed

lemma collect_h_plain:
  "json obj \<Longrightarrow> list_all (plain_key H) (concat pks) \<Longrightarrow>
   collect_h H obj pks results = collect obj pks results"
  by (induction pks arbitrary: results) (simp_all add: pathResult_h_plain)

lemma own_property_reads_suffice:
  "json obj \<Longrightarrow> list_all (plain_key H) (concat (allPaths paths)) \<Longrightarrow>
   getValuesFromObjectByPath_h H obj paths = getValuesFromObjectByPath obj paths"
  by (simp add: getValuesFromObjectByPath_h_def getValuesFromObjectByPath_def collect_h_plain)


subsection \<open>The fragment of built-in objects\<close>

text \<open>In the fragment the keys that can raise are \<^verbatim>\<open>caller\<close> and
  \<^verbatim>\<open>arguments\<close>, and the one name JSON data inherits is \<^verbatim>\<open>constructor\<close>.\<close>

lemma safe_key_builtins: "k \<noteq> ''caller'' \<Longrightarrow> k \<noteq> ''arguments'' \<Longrightarrow> safe_key builtins k"
  unfolding safe_key_def builtins_def
proof (intro allI)
  fix v
  assume "k \<noteq> ''caller''" "k \<noteq> ''arguments''"
  then show "\<exists>r. hread \<lparr>hread = builtin_read, harray = \<lambda>h. None, htruthy = \<lambda>h. True\<rparr> v k = Inr r"
    by (cases v) simp_all
qed

lemma plain_key_builtins: "k \<noteq> ''constructor'' \<Longrightarrow> plain_key builtins k"
  unfolding plain_key_def builtins_def
proof (intro allI impI)
  fix v
  assume "k \<noteq> ''constructor''" "json v"
  then show "hread \<lparr>hread = builtin_read, harray = \<lambda>h. None, htruthy = \<lambda>h. True\<rparr> v k = Inr JUndefined"
    by (cases v) simp_all
qed

lemmas eval_defs_h = allPaths_def pathResult_h_def traverseBasedOnPath_h_def finalValue_h_def
  opt_get_h_def get_prop_h_def Let_def array_index_def returnValue_def
  getValuesFromObjectByPath_h_def isArray_h_def js_map_h_def js_filter_h_def js_flat_h_def
  builtins_def is_function_def

text \<open>Reads of inherited properties that return: \<^verbatim>\<open>a/constructor/name\<close> on
  \<^verbatim>\<open>{a: 5}\<close> is the name of the function \<^verbatim>\<open>Number\<close>, and
  \<^verbatim>\<open>items/constructor\<close> on \<^verbatim>\<open>{items: [{v: 1}]}\<close> is the array of the
  constructors of the elements.\<close>

lemma builtins_examples:
  "getValuesFromObjectByPath_h builtins (JObj [(''a'', JNum 5)]) (PathString ''a/constructor/name'')
     = Inr (JStr ''Number'')"
  "getValuesFromObjectByPath_h builtins (JObj [(''items'', JArr [JObj [(''v'', JNum 1)]])])
     (PathString ''items/constructor'') = Inr (JArr [JHost ''Object''])"
  by (simp_all add: eval_defs_h)

section \<open>The claims\<close>



text \<open>
  C2 (as amended). Let no segment of any path be a key whose read as an inherited property
  raises. Then, for every document and every path string or array of path strings, on
  every host, the call returns: no step raises. For a path \<open>p\<close>, with \<open>c\<close>
  the value the traversal of the keys before its accessor returns: when \<open>c\<close> is
  \<^verbatim>\<open>undefined\<close> or \<^verbatim>\<open>null\<close> (a key missing on an object or a scalar, a
  \<^verbatim>\<open>null\<close> met on the way, a \<^verbatim>\<open>[n]\<close> on a value that is no array), or
  \<open>c\<close> is not an array and the read of the accessor on it gives
  \<^verbatim>\<open>undefined\<close>, the path contributes nothing: the call with that single path
  returns \<^verbatim>\<open>undefined\<close>, and a call with several paths does what it does without
  that path. For a path \<open>p'\<close> whose keys before the accessor lead to an array
  \<open>c'\<close> and whose accessor is safe, the path contributes an array \<open>ys\<close>,
  whatever the elements carry: a key missing on the elements of an array is filtered
  out, not turned into \<^verbatim>\<open>undefined\<close>. The call with that single path returns
  this array, and a call with that path among others, of safe segments too, returns this
  array or a results array that holds it: the array is not omitted.
\<close>

theorem C2_never_raises:
  "(list_all (safe_key H) (concat (allPaths paths)) \<longrightarrow>
      (\<exists>r. getValuesFromObjectByPath_h H obj paths = Inr r)) \<and>
   (traverseBasedOnPath_h H obj keys = Inr c \<and> split_slash p = keys @ [accessor] \<and>
    (c = JUndefined \<or> c = JNull \<or>
      (\<not> isArray_h H c \<and> get_prop_h H c accessor = Inr JUndefined)) \<longrightarrow>
        getValuesFromObjectByPath_h H obj (PathString p) = Inr JUndefined \<and>
        getValuesFromObjectByPath_h H obj (PathArray (ps @ p # ps')) =
          getValuesFromObjectByPath_h H obj (PathArray (ps @ ps'))) \<and>
   (traverseBasedOnPath_h H obj keys' = Inr c' \<and> split_slash p' = keys' @ [accessor'] \<and>
    isArray_h H c' \<and> safe_key H accessor' \<longrightarrow>
      (\<exists>ys. getValuesFromObjectByPath_h H obj (PathString p') = Inr (JArr ys) \<and>
         (list_all (safe_key H) (concat (map split_slash (qs @ qs'))) \<longrightarrow>
            (\<exists>r. getValuesFromObjectByPath_h H obj (PathArray (qs @ p' # qs')) = Inr r \<and>
               (r = JArr ys \<or> (\<exists>rs. r = JArr rs \<and> JArr ys \<in> set rs))))))"
proof -
  have absent: "getValuesFromObjectByPath_h H obj (PathString p) = Inr JUndefined \<and>
      getValuesFromObjectByPath_h H obj (PathArray (ps @ p # ps')) =
        getValuesFromObjectByPath_h H obj (PathArray (ps @ ps'))"
    if c: "traverseBasedOnPath_h H obj keys = Inr c" and p: "split_slash p = keys @ [accessor]"
      and miss: "c = JUndefined \<or> c = JNull \<or>
        (\<not> isArray_h H c \<and> get_prop_h H c accessor = Inr JUndefined)"
  proof -
    from miss have "finalValue_h H c accessor = Inr JUndefined"
      by (auto simp: finalValue_h_nullish finalValue_h_plain opt_get_h_def)
    from pathResult_h_snoc [OF c [unfolded traverseBasedOnPath_h_def] this]
    have "pathResult_h H obj (split_slash p) = Inr None"
      by (simp add: p)
    from single_path_h [OF this] omitted_path_h [OF this] show ?thesis
      by simp
  qed
  have present: "\<exists>ys. getValuesFromObjectByPath_h H obj (PathString p') = Inr (JArr ys) \<and>
      (list_all (safe_key H) (concat (map split_slash (qs @ qs'))) \<longrightarrow>
         (\<exists>r. getValuesFromObjectByPath_h H obj (PathArray (qs @ p' # qs')) = Inr r \<and>
            (r = JArr ys \<or> (\<exists>rs. r = JArr rs \<and> JArr ys \<in> set rs))))"
    if c: "traverseBasedOnPath_h H obj keys' = Inr c'"
      and p: "split_slash p' = keys' @ [accessor']"
      and arr: "isArray_h H c'" and acc: "safe_key H accessor'"
  proof -
    from finalValue_h_array [OF arr acc] obtain ys where
      ys: "finalValue_h H c' accessor' = Inr (JArr ys)"
      by blast
    from arr have "c' \<noteq> JUndefined"
      by (auto simp: isArray_h_def)
    with pathResult_h_snoc [OF c [unfolded traverseBasedOnPath_h_def] ys]
    have r: "pathResult_h H obj (split_slash p') = Inr (Some (JArr ys))"
      by (simp add: p)
    from single_path_h [OF r] kept_path_h [OF r, of qs qs'] show ?thesis
      by auto
  qed
  from extract_h_total [of H paths obj] absent present show ?thesis
    by blast
qed

text \<open>On \<^verbatim>\<open>{a: {b: 5}, items: [{v: 1}]}\<close> with the built-in objects: the paths
  \<^verbatim>\<open>a/b\<close>, \<^verbatim>\<open>a/x\<close> and \<^verbatim>\<open>items/x\<close> have safe segments only;
  \<^verbatim>\<open>a/x\<close> contributes nothing, \<^verbatim>\<open>items/x\<close> contributes the empty
  array.\<close>

theorem C2_never_raises_witness:
  "list_all (safe_key builtins) (concat (allPaths (PathArray [''a/b'', ''a/x'', ''items/x''])))
   \<and> getValuesFromObjectByPath_h builtins
        (JObj [(''a'', JObj [(''b'', JNum 5)]), (''items'', JArr [JObj [(''v'', JNum 1)]])])
        (PathArray [''a/b'', ''a/x'', ''items/x'']) = Inr (JArr [JNum 5, JArr []])
   \<and> traverseBasedOnPath_h builtins
        (JObj [(''a'', JObj [(''b'', JNum 5)]), (''items'', JArr [JObj [(''v'', JNum 1)]])]) [''a'']
       = Inr (JObj [(''b'', JNum 5)])
   \<and> split_slash ''a/x'' = [''a''] @ [''x'']
   \<and> \<not> isArray_h builtins (JObj [(''b'', JNum 5)])
   \<and> get_prop_h builtins (JObj [(''b'', JNum 5)]) ''x'' = Inr JUndefined
   \<and> getValuesFromObjectByPath_h builtins
        (JObj [(''a'', JObj [(''b'', JNum 5)]), (''items'', JArr [JObj [(''v'', JNum 1)]])])
        (PathString ''a/x'') = Inr JUndefined
   \<and> getValuesFromObjectByPath_h builtins
        (JObj [(''a'', JObj [(''b'', JNum 5)]), (''items'', JArr [JObj [(''v'', JNum 1)]])])
        (PathArray ([''a/b''] @ ''a/x'' # [])) = Inr (JNum 5)
   \<and> traverseBasedOnPath_h builtins
        (JObj [(''a'', JObj [(''b'', JNum 5)]), (''items'', JArr [JObj [(''v'', JNum 1)]])]) [''items'']
       = Inr (JArr [JObj [(''v'', JNum 1)]])
   \<and> split_slash ''items/x'' = [''items''] @ [''x'']
   \<and> isArray_h builtins (JArr [JObj [(''v'', JNum 1)]])
   \<and> safe_key builtins ''x''
   \<and> list_all (safe_key builtins) (concat (map split_slash ([''a/b''] @ [])))
   \<and> getValuesFromObjectByPath_h builtins
        (JObj [(''a'', JObj [(''b'', JNum 5)]), (''items'', JArr [JObj [(''v'', JNum 1)]])])
        (PathString ''items/x'') = Inr (JArr [])
   \<and> getValuesFromObjectByPath_h builtins
        (JObj [(''a'', JObj [(''b'', JNum 5)]), (''items'', JArr [JObj [(''v'', JNum 1)]])])
        (PathArray ([''a/b''] @ ''items/x'' # [])) = Inr (JArr [JNum 5, JArr []])"
proof -
  let ?doc = "JObj [(''a'', JObj [(''b'', JNum 5)]), (''items'', JArr [JObj [(''v'', JNum 1)]])]"
  have s: "list_all (safe_key builtins) (concat (allPaths (PathArray [''a/b'', ''a/x'', ''items/x''])))"
    by (simp add: allPaths_def safe_key_builtins)
  have v: "getValuesFromObjectByPath_h builtins ?doc (PathArray [''a/b'', ''a/x'', ''items/x''])
      = Inr (JArr [JNum 5, JArr []])"
    by (simp add: eval_defs_h)
  have t: "traverseBasedOnPath_h builtins ?doc [''a''] = Inr (JObj [(''b'', JNum 5)])"
    by (simp add: eval_defs_h)
  have sp: "split_slash ''a/x'' = [''a''] @ [''x'']"
    by simp
  have n: "\<not> isArray_h builtins (JObj [(''b'', JNum 5)])"
    by (simp add: isArray_h_def)
  have m: "get_prop_h builtins (JObj [(''b'', JNum 5)]) ''x'' = Inr JUndefined"
    by (simp add: eval_defs_h)
  have b: "getValuesFromObjectByPath_h builtins ?doc (PathArray ([''a/b''] @ [])) = Inr (JNum 5)"
    by (simp add: eval_defs_h)
  have t': "traverseBasedOnPath_h builtins ?doc [''items''] = Inr (JArr [JObj [(''v'', JNum 1)]])"
    by (simp add: eval_defs_h)
  have sp': "split_slash ''items/x'' = [''items''] @ [''x'']"
    by simp
  have a: "isArray_h builtins (JArr [JObj [(''v'', JNum 1)]])"
    by (simp add: isArray_h_def)
  have sx: "safe_key builtins ''x''"
    by (simp add: safe_key_builtins)
  have sq: "list_all (safe_key builtins) (concat (map split_slash ([''a/b''] @ [])))"
    by (simp add: safe_key_builtins)
  have e1: "getValuesFromObjectByPath_h builtins ?doc (PathString ''items/x'') = Inr (JArr [])"
    by (simp add: eval_defs_h)
  have e2: "getValuesFromObjectByPath_h builtins ?doc (PathArray ([''a/b''] @ ''items/x'' # []))
      = Inr (JArr [JNum 5, JArr []])"
    by (simp add: eval_defs_h)
  note inst = C2_never_raises [of builtins "PathArray [''a/b'', ''a/x'', ''items/x'']" ?doc
      "[''a'']" "JObj [(''b'', JNum 5)]" "''a/x''" "''x''" "[''a/b'']" "[]"
      "[''items'']" "JArr [JObj [(''v'', JNum 1)]]" "''items/x''" "''x''" "[''a/b'']" "[]"]
  from inst t sp n m have
    u: "getValuesFromObjectByPath_h builtins ?doc (PathString ''a/x'') = Inr JUndefined"
    and o: "getValuesFromObjectByPath_h builtins ?doc (PathArray ([''a/b''] @ ''a/x'' # [])) =
      getValuesFromObjectByPath_h builtins ?doc (PathArray ([''a/b''] @ []))"
    by blast+
  from s v t sp n m u o b t' sp' a sx sq e1 e2 show ?thesis
    by (simp only: simp_thms)
qed

text \<open>
  C2 as stated fails twice. A call can raise: on \<^verbatim>\<open>{a: 5}\<close> the path
  \<^verbatim>\<open>a/constructor/caller\<close> reads \<^verbatim>\<open>constructor\<close> on 5, which is the
  built-in function \<^verbatim>\<open>Number\<close>, and then \<^verbatim>\<open>caller\<close> on that function,
  which throws a \<^verbatim>\<open>TypeError\<close>; the optional chain guards against
  \<^verbatim>\<open>null\<close> and \<^verbatim>\<open>undefined\<close> only. And a missing key does not always
  degrade to \<^verbatim>\<open>undefined\<close>: \<^verbatim>\<open>x\<close> is absent from \<^verbatim>\<open>{v: 1}\<close>, yet
  the single path \<^verbatim>\<open>items/x\<close> on \<^verbatim>\<open>{items: [{v: 1}]}\<close> returns the empty
  array, and among several paths its empty array is not omitted.
\<close>

theorem C2_counterexample:
  "getValuesFromObjectByPath_h builtins (JObj [(''a'', JNum 5)]) (PathString ''a/constructor/caller'')
     = Inl TypeError
   \<and> opt_get_h builtins (JObj [(''v'', JNum 1)]) ''x'' = Inr JUndefined
   \<and> getValuesFromObjectByPath_h builtins (JObj [(''items'', JArr [JObj [(''v'', JNum 1)]])])
         (PathString ''items/x'') = Inr (JArr [])
   \<and> getValuesFromObjectByPath_h builtins (JObj [(''items'', JArr [JObj [(''v'', JNum 1)]])])
         (PathString ''items/x'') \<noteq> Inr JUndefined
   \<and> getValuesFromObjectByPath_h builtins
         (JObj [(''items'', JArr [JObj [(''v'', JNum 1)]]), (''n'', JNum 7)])
         (PathArray [''items/x'', ''n'']) = Inr (JArr [JArr [], JNum 7])"
  by (simp add: eval_defs_h)

text \<open>
  C3. When the loop ends with no result the call returns \<^verbatim>\<open>undefined\<close>. When the
  final value of a path (the value read off the intermediate value by the accessor) is the
  empty array, that empty array is pushed: the call with that single path returns it, and
  a call with that path among others returns it or the results array that holds it; in
  no case \<^verbatim>\<open>undefined\<close>.
\<close>

theorem C3_absent_or_empty:
  "(collect obj (allPaths paths) [] = Inr [] \<longrightarrow>
      getValuesFromObjectByPath obj paths = Inr JUndefined) \<and>
   (split_slash p = keys @ [accessor] \<and> traverseBasedOnPath obj keys = Inr c \<and>
    finalValue c accessor = Inr (JArr []) \<longrightarrow>
      pathResult obj (split_slash p) = Inr (Some (JArr [])) \<and>
      getValuesFromObjectByPath obj (PathString p) = Inr (JArr []) \<and>
      getValuesFromObjectByPath obj (PathString p) \<noteq> Inr JUndefined \<and>
      (\<exists>r. getValuesFromObjectByPath obj (PathArray (ps @ p # ps')) = Inr r \<and>
         r \<noteq> JUndefined \<and> (r = JArr [] \<or> (\<exists>rs. r = JArr rs \<and> JArr [] \<in> set rs))))"
proof -
  have empty: "getValuesFromObjectByPath obj paths = Inr JUndefined"
    if "collect obj (allPaths paths) [] = Inr []"
    using that by (simp add: getValuesFromObjectByPath_def returnValue_def)
  have found: "pathResult obj (split_slash p) = Inr (Some (JArr []))"
    if p: "split_slash p = keys @ [accessor]" and c: "traverseBasedOnPath obj keys = Inr c"
      and v: "finalValue c accessor = Inr (JArr [])"
  proof -
    from v have "c \<noteq> JUndefined" by (auto simp: finalValue_nullish)
    with pathResult_snoc [OF c [unfolded traverseBasedOnPath_def] v] show ?thesis
      by (simp add: p)
  qed
  have returned: "getValuesFromObjectByPath obj (PathString p) = Inr (JArr [])"
    if "split_slash p = keys @ [accessor]" and "traverseBasedOnPath obj keys = Inr c"
      and "finalValue c accessor = Inr (JArr [])"
    using single_path [OF found [OF that]] by simp
  have among: "\<exists>r. getValuesFromObjectByPath obj (PathArray (ps @ p # ps')) = Inr r \<and>
         r \<noteq> JUndefined \<and> (r = JArr [] \<or> (\<exists>rs. r = JArr rs \<and> JArr [] \<in> set rs))"
    if "split_slash p = keys @ [accessor]" and "traverseBasedOnPath obj keys = Inr c"
      and "finalValue c accessor = Inr (JArr [])"
  proof -
    from results_with [OF found [OF that], of ps ps'] obtain xs ys where
      "collect obj (map split_slash ps @ split_slash p # map split_slash ps') [] =
         Inr (xs @ JArr [] # ys)"
      by blast
    then have "getValuesFromObjectByPath obj (PathArray (ps @ p # ps')) =
        Inr (if xs = [] \<and> ys = [] then JArr [] else JArr (xs @ JArr [] # ys))"
      by (simp add: getValuesFromObjectByPath_def allPaths_def returnValue_with)
    then show ?thesis
      by (cases "xs = [] \<and> ys = []") auto
  qed
  from empty found returned among show ?thesis
    by simp
qed

theorem C3_absent_or_empty_witness:
  "collect (JObj [(''a'', JObj [(''b'', JArr []), (''c'', JNum 1)])]) (allPaths (PathString ''a/x'')) [] = Inr []
   \<and> getValuesFromObjectByPath (JObj [(''a'', JObj [(''b'', JArr []), (''c'', JNum 1)])]) (PathString ''a/x'') = Inr JUndefined
   \<and> split_slash ''a/b'' = [''a''] @ [''b'']
   \<and> traverseBasedOnPath (JObj [(''a'', JObj [(''b'', JArr []), (''c'', JNum 1)])]) [''a'']
       = Inr (JObj [(''b'', JArr []), (''c'', JNum 1)])
   \<and> finalValue (JObj [(''b'', JArr []), (''c'', JNum 1)]) ''b'' = Inr (JArr [])
   \<and> getValuesFromObjectByPath (JObj [(''a'', JObj [(''b'', JArr []), (''c'', JNum 1)])]) (PathString ''a/b'') = Inr (JArr [])
   \<and> getValuesFromObjectByPath (JObj [(''a'', JObj [(''b'', JArr []), (''c'', JNum 1)])])
        (PathArray ([''a/c''] @ ''a/b'' # [])) = Inr (JArr [JNum 1, JArr []])"
proof -
  have h1: "collect (JObj [(''a'', JObj [(''b'', JArr []), (''c'', JNum 1)])]) (allPaths (PathString ''a/x'')) [] = Inr []"
    by (simp add: eval_defs)
  have h2: "split_slash ''a/b'' = [''a''] @ [''b'']"
    by simp
  have h3: "traverseBasedOnPath (JObj [(''a'', JObj [(''b'', JArr []), (''c'', JNum 1)])]) [''a'']
      = Inr (JObj [(''b'', JArr []), (''c'', JNum 1)])"
    by (simp add: eval_defs)
  have h4: "finalValue (JObj [(''b'', JArr []), (''c'', JNum 1)]) ''b'' = Inr (JArr [])"
    by (simp add: eval_defs)
  have h5: "getValuesFromObjectByPath (JObj [(''a'', JObj [(''b'', JArr []), (''c'', JNum 1)])])
        (PathArray ([''a/c''] @ ''a/b'' # [])) = Inr (JArr [JNum 1, JArr []])"
    by (simp add: eval_defs)
  show ?thesis
    using C3_absent_or_empty [of "JObj [(''a'', JObj [(''b'', JArr []), (''c'', JNum 1)])]"
        "PathString ''a/x''" "''a/b''" "[''a'']" "''b''" "JObj [(''b'', JArr []), (''c'', JNum 1)]"
        "[''a/c'']" "[]"] h1 h2 h3 h4 h5
    by simp
qed

text \<open>
  C4. When the current value is an array and the next key is \<^verbatim>\<open>[n]\<close>, the
  traversal goes on from the array of its truthy elements flattened by one level, at the
  head of the keys and after any keys that lead to the array. The call of the
  specification, \<^verbatim>\<open>items/[n]/v\<close> on \<^verbatim>\<open>{items: [[{v: 1}], [{v: 2}]]}\<close>, returns
  \<^verbatim>\<open>[1, 2]\<close>.
\<close>

theorem C4_wildcard_flatten:
  "traverseBasedOnPath (JArr xs) (''[n]'' # keys) =
     traverseBasedOnPath (JArr (concat (map elements (filter Boolean xs)))) keys \<and>
   (traverseBasedOnPath obj pre = Inr (JArr xs) \<longrightarrow>
      traverseBasedOnPath obj (pre @ ''[n]'' # keys) =
        traverseBasedOnPath (JArr (concat (map elements (filter Boolean xs)))) keys) \<and>
   getValuesFromObjectByPath
     (JObj [(''items'', JArr [JArr [JObj [(''v'', JNum 1)]], JArr [JObj [(''v'', JNum 2)]]])])
     (PathString ''items/[n]/v'') = Inr (JArr [JNum 1, JNum 2])"
proof -
  have step: "traverseBasedOnPath (JArr xs) (''[n]'' # keys) =
      traverseBasedOnPath (JArr (concat (map elements (filter Boolean xs)))) keys"
    by (simp only: traverseBasedOnPath_def traverse_loop_wildcard flatten_into_concat)
  have example: "getValuesFromObjectByPath
     (JObj [(''items'', JArr [JArr [JObj [(''v'', JNum 1)]], JArr [JObj [(''v'', JNum 2)]]])])
     (PathString ''items/[n]/v'') = Inr (JArr [JNum 1, JNum 2])"
    by (simp add: eval_defs)
  from step example show ?thesis
    by (simp add: traverse_snoc)
qed

theorem C4_wildcard_flatten_witness:
  "traverseBasedOnPath
     (JObj [(''items'', JArr [JArr [JObj [(''v'', JNum 1)]], JNull, JArr [JObj [(''v'', JNum 2)]]])])
     [''items''] = Inr (JArr [JArr [JObj [(''v'', JNum 1)]], JNull, JArr [JObj [(''v'', JNum 2)]]])
   \<and> traverseBasedOnPath
     (JObj [(''items'', JArr [JArr [JObj [(''v'', JNum 1)]], JNull, JArr [JObj [(''v'', JNum 2)]]])])
     ([''items''] @ ''[n]'' # []) = Inr (JArr [JObj [(''v'', JNum 1)], JObj [(''v'', JNum 2)]])"
proof -
  have h: "traverseBasedOnPath
     (JObj [(''items'', JArr [JArr [JObj [(''v'', JNum 1)]], JNull, JArr [JObj [(''v'', JNum 2)]]])])
     [''items''] = Inr (JArr [JArr [JObj [(''v'', JNum 1)]], JNull, JArr [JObj [(''v'', JNum 2)]]])"
    by (simp add: eval_defs)
  have e: "concat (map elements (filter Boolean
      [JArr [JObj [(''v'', JNum 1)]], JNull, JArr [JObj [(''v'', JNum 2)]]])) =
      [JObj [(''v'', JNum 1)], JObj [(''v'', JNum 2)]]"
    by (simp add: elements_def)
  show ?thesis
    using C4_wildcard_flatten [of "[JArr [JObj [(''v'', JNum 1)]], JNull, JArr [JObj [(''v'', JNum 2)]]]" "[]"
        "JObj [(''items'', JArr [JArr [JObj [(''v'', JNum 1)]], JNull, JArr [JObj [(''v'', JNum 2)]]])]"
        "[''items'']"] h
    by (simp add: e traverseBasedOnPath_def)
qed



text \<open>
  C6. Let the keys before a \<^verbatim>\<open>[n]\<close> lead to a value \<open>c\<close> that is not an
  array. When the loop reaches the \<^verbatim>\<open>[n]\<close> with \<open>c\<close> as its current value,
  that is when \<open>c\<close> is neither \<^verbatim>\<open>undefined\<close> nor \<^verbatim>\<open>null\<close> (on
  those the loop has stopped before it looks at a key, C9), the traversal returns
  \<^verbatim>\<open>undefined\<close> at once, whatever keys follow, from \<open>c\<close> and from the
  document alike. In every case, \<^verbatim>\<open>undefined\<close> and \<^verbatim>\<open>null\<close> included
  (where the traversal returns \<open>c\<close> itself), nothing is raised and the path
  contributes nothing: the call with that single path returns \<^verbatim>\<open>undefined\<close>, and
  among several paths it is left out.
\<close>

theorem C6_wildcard_on_non_array:
  "traverseBasedOnPath obj pre = Inr c \<and> \<not> isArray c \<longrightarrow>
     (c \<noteq> JUndefined \<and> c \<noteq> JNull \<longrightarrow>
        traverseBasedOnPath c (''[n]'' # post) = Inr JUndefined \<and>
        traverseBasedOnPath obj (pre @ ''[n]'' # post) = Inr JUndefined) \<and>
     traverseBasedOnPath obj (pre @ ''[n]'' # post) = Inr (if c = JNull then JNull else JUndefined) \<and>
     pathResult obj (pre @ ''[n]'' # post @ [accessor]) = Inr None \<and>
     (split_slash p = pre @ ''[n]'' # post @ [accessor] \<longrightarrow>
        getValuesFromObjectByPath obj (PathString p) = Inr JUndefined \<and>
        getValuesFromObjectByPath obj (PathArray (ps @ p # ps')) =
          getValuesFromObjectByPath obj (PathArray (ps @ ps')))"
proof (intro impI, elim conjE)
  assume c: "traverseBasedOnPath obj pre = Inr c" and scalar: "\<not> isArray c"
  let ?r = "if c = JNull then JNull else JUndefined"
  have step: "traverse_loop c (''[n]'' # post) = Inr ?r"
    using scalar by simp
  with traverse_snoc [OF c, of "''[n]'' # post"]
  have whole: "traverseBasedOnPath obj (pre @ ''[n]'' # post) = Inr ?r"
    by (simp add: traverseBasedOnPath_def)
  have reached: "traverseBasedOnPath c (''[n]'' # post) = Inr JUndefined \<and>
        traverseBasedOnPath obj (pre @ ''[n]'' # post) = Inr JUndefined"
    if "c \<noteq> JUndefined" "c \<noteq> JNull"
    using that step whole by (simp add: traverseBasedOnPath_def)
  have nullish: "?r = JUndefined \<or> ?r = JNull"
    by simp
  have "pathResult obj ((pre @ ''[n]'' # post) @ [accessor]) = Inr None"
    using pathResult_snoc [OF whole [unfolded traverseBasedOnPath_def] finalValue_nullish [OF nullish]]
    by simp
  then have none: "pathResult obj (pre @ ''[n]'' # post @ [accessor]) = Inr None"
    by simp
  have out: "getValuesFromObjectByPath obj (PathString p) = Inr JUndefined \<and>
        getValuesFromObjectByPath obj (PathArray (ps @ p # ps')) =
          getValuesFromObjectByPath obj (PathArray (ps @ ps'))"
    if p: "split_slash p = pre @ ''[n]'' # post @ [accessor]"
  proof -
    from none p have "pathResult obj (split_slash p) = Inr None" by simp
    from single_path [OF this] omitted_path [OF this] show ?thesis by simp
  qed
  from reached whole none out
  show "(c \<noteq> JUndefined \<and> c \<noteq> JNull \<longrightarrow>
        traverseBasedOnPath c (''[n]'' # post) = Inr JUndefined \<and>
        traverseBasedOnPath obj (pre @ ''[n]'' # post) = Inr JUndefined) \<and>
     traverseBasedOnPath obj (pre @ ''[n]'' # post) = Inr ?r \<and>
     pathResult obj (pre @ ''[n]'' # post @ [accessor]) = Inr None \<and>
     (split_slash p = pre @ ''[n]'' # post @ [accessor] \<longrightarrow>
        getValuesFromObjectByPath obj (PathString p) = Inr JUndefined \<and>
        getValuesFromObjectByPath obj (PathArray (ps @ p # ps')) =
          getValuesFromObjectByPath obj (PathArray (ps @ ps')))"
    by simp
qed

theorem C6_wildcard_on_non_array_witness:
  "traverseBasedOnPath (JObj [(''a'', JObj [(''v'', JNum 1)]), (''b'', JNum 2)]) [''a''] = Inr (JObj [(''v'', JNum 1)])
   \<and> \<not> isArray (JObj [(''v'', JNum 1)])
   \<and> JObj [(''v'', JNum 1)] \<noteq> JUndefined \<and> JObj [(''v'', JNum 1)] \<noteq> JNull
   \<and> traverseBasedOnPath (JObj [(''v'', JNum 1)]) (''[n]'' # []) = Inr JUndefined
   \<and> traverseBasedOnPath (JObj [(''a'', JObj [(''v'', JNum 1)]), (''b'', JNum 2)]) ([''a''] @ ''[n]'' # []) = Inr JUndefined
   \<and> split_slash ''a/[n]/v'' = [''a''] @ ''[n]'' # [] @ [''v'']
   \<and> getValuesFromObjectByPath (JObj [(''a'', JObj [(''v'', JNum 1)]), (''b'', JNum 2)]) (PathString ''a/[n]/v'') = Inr JUndefined
   \<and> getValuesFromObjectByPath (JObj [(''a'', JObj [(''v'', JNum 1)]), (''b'', JNum 2)]) (PathArray ([] @ ''a/[n]/v'' # [''b''])) = Inr (JNum 2)"
proof -
  have t: "traverseBasedOnPath (JObj [(''a'', JObj [(''v'', JNum 1)]), (''b'', JNum 2)]) [''a''] = Inr (JObj [(''v'', JNum 1)])"
    by (simp add: eval_defs)
  have n: "\<not> isArray (JObj [(''v'', JNum 1)])" by simp
  have d: "JObj [(''v'', JNum 1)] \<noteq> JUndefined" "JObj [(''v'', JNum 1)] \<noteq> JNull" by simp_all
  have s: "split_slash ''a/[n]/v'' = [''a''] @ ''[n]'' # [] @ [''v'']" by simp
  have b: "getValuesFromObjectByPath (JObj [(''a'', JObj [(''v'', JNum 1)]), (''b'', JNum 2)]) (PathArray ([] @ [''b''])) = Inr (JNum 2)"
    by (simp add: eval_defs)
  note inst = C6_wildcard_on_non_array [of "JObj [(''a'', JObj [(''v'', JNum 1)]), (''b'', JNum 2)]"
      "[''a'']" "JObj [(''v'', JNum 1)]" "[]" "''v''" "''a/[n]/v''" "[]" "[''b'']"]
  from inst t n d have
    r: "traverseBasedOnPath (JObj [(''v'', JNum 1)]) (''[n]'' # []) = Inr JUndefined"
    and w: "traverseBasedOnPath (JObj [(''a'', JObj [(''v'', JNum 1)]), (''b'', JNum 2)]) ([''a''] @ ''[n]'' # []) = Inr JUndefined"
    by blast+
  from inst t n s have
    u: "getValuesFromObjectByPath (JObj [(''a'', JObj [(''v'', JNum 1)]), (''b'', JNum 2)]) (PathString ''a/[n]/v'') = Inr JUndefined"
    and o: "getValuesFromObjectByPath (JObj [(''a'', JObj [(''v'', JNum 1)]), (''b'', JNum 2)]) (PathArray ([] @ ''a/[n]/v'' # [''b'']))
      = getValuesFromObjectByPath (JObj [(''a'', JObj [(''v'', JNum 1)]), (''b'', JNum 2)]) (PathArray ([] @ [''b'']))"
    by blast+
  from t n d r w s u o b show ?thesis
    by (simp only: simp_thms)
qed

text \<open>
  C7. The empty path is not skipped. \<^verbatim>\<open>split('/')\<close> never returns an empty array:
  the empty string gives the one segment \<^verbatim>\<open>""\<close>, so the test
  \<^verbatim>\<open>pathKeys.length === 0\<close> is false and the document itself is read with the
  accessor \<^verbatim>\<open>""\<close>. On the document \<^verbatim>\<open>[1]\<close> the call returns the empty array,
  on \<^verbatim>\<open>{"": 5}\<close> it returns 5; neither is \<^verbatim>\<open>undefined\<close>.
\<close>

theorem C7_empty_path_not_skipped:
  "split_slash p \<noteq> [] \<and>
   allPaths (PathString '''') = [['''']] \<and>
   pathResult (JArr [JNum 1]) [''''] = Inr (Some (JArr [])) \<and>
   getValuesFromObjectByPath (JArr [JNum 1]) (PathString '''') = Inr (JArr []) \<and>
   getValuesFromObjectByPath (JObj [('''', JNum 5)]) (PathString '''') = Inr (JNum 5)"
  by (simp add: eval_defs split_slash_not_Nil)

text \<open>
  C8. On the store model. Whenever \<^verbatim>\<open>traverseBasedOnPath\<close> returns, the store it
  leaves is the store it was given followed by new cells. Whenever
  \<^verbatim>\<open>getValuesFromObjectByPath\<close> returns, the same holds: every cell that existed before
  the call (the document, the caller's path list, anything else) is unchanged, the arrays
  it pops from and pushes onto being its own; so a document that was the tree \<open>t\<close>
  before the call is the tree \<open>t\<close> after it, and the path list holds the same
  strings. The call does return on every document that is a tree and every path string or
  array of path strings, with the value the tree model computes.
\<close>

theorem C8_no_mutation:
  "(s_traverseBasedOnPath obj pathKeys st = Inr (v, st1) \<longrightarrow> prefix st st1) \<and>
   (s_getValuesFromObjectByPath obj paths st = Inr (r, st') \<longrightarrow>
      prefix st st' \<and>
      (repr (cell_at st) obj t \<longrightarrow> repr (cell_at st') obj t) \<and>
      (paths_repr st paths parg \<longrightarrow> paths_repr st' paths parg)) \<and>
   (repr (cell_at st) obj t \<and> paths_repr st paths parg \<longrightarrow>
      (\<exists>r st' t'. s_getValuesFromObjectByPath obj paths st = Inr (r, st') \<and>
         getValuesFromObjectByPath t parg = Inr t' \<and> repr (cell_at st') r t'))"
proof -
  have trav: "prefix st st1" if "s_traverseBasedOnPath obj pathKeys st = Inr (v, st1)"
    using extends_s_traverseBasedOnPath that by (rule extendsD)
  have call: "prefix st st' \<and>
      (repr (cell_at st) obj t \<longrightarrow> repr (cell_at st') obj t) \<and>
      (paths_repr st paths parg \<longrightarrow> paths_repr st' paths parg)"
    if "s_getValuesFromObjectByPath obj paths st = Inr (r, st')"
    using s_getValuesFromObjectByPath_frame [OF that]
    by (auto intro: repr_prefix paths_repr_prefix)
  from trav call store_query_agrees [of st obj t paths parg] show ?thesis
    by blast
qed

theorem C8_no_mutation_witness:
  "s_traverseBasedOnPath (SRef 4) (SRef 6) example_store = Inr (SRef 3, example_store)
   \<and> s_getValuesFromObjectByPath (SRef 4) (SRef 5) example_store = Inr (SRef 12, example_store')
   \<and> prefix example_store example_store'
   \<and> repr (cell_at example_store) (SRef 4) example_doc
   \<and> repr (cell_at example_store') (SRef 4) example_doc
   \<and> paths_repr example_store (SRef 5) (PathArray [''items/v'', ''a/x''])
   \<and> paths_repr example_store' (SRef 5) (PathArray [''items/v'', ''a/x''])
   \<and> getValuesFromObjectByPath example_doc (PathArray [''items/v'', ''a/x'']) = Inr (JArr [JNum 1, JNum 2])
   \<and> repr (cell_at example_store') (SRef 12) (JArr [JNum 1, JNum 2])"
proof -
  have t: "s_traverseBasedOnPath (SRef 4) (SRef 6) example_store = Inr (SRef 3, example_store)"
    by (simp add: example_store_def store_defs)
  have g: "s_getValuesFromObjectByPath (SRef 4) (SRef 5) example_store = Inr (SRef 12, example_store')"
    by (simp add: example_store'_def example_store_def store_defs)
  have p: "paths_repr example_store (SRef 5) (PathArray [''items/v'', ''a/x''])"
    by (simp add: paths_repr_def array_at_def cell_at_def example_store_def)
  have e: "getValuesFromObjectByPath example_doc (PathArray [''items/v'', ''a/x'']) =
      Inr (JArr [JNum 1, JNum 2])"
    by (simp add: example_doc_def eval_defs)
  note inst = C8_no_mutation [of "SRef 4" "SRef 6" example_store "SRef 3" example_store
      "SRef 5" "SRef 12" example_store' example_doc "PathArray [''items/v'', ''a/x'']"]
  from inst g example_repr p have a: "prefix example_store example_store'"
    and b: "repr (cell_at example_store') (SRef 4) example_doc"
    and c: "paths_repr example_store' (SRef 5) (PathArray [''items/v'', ''a/x''])"
    by blast+
  from inst example_repr p obtain r st' t' where
    "s_getValuesFromObjectByPath (SRef 4) (SRef 5) example_store = Inr (r, st')"
    "getValuesFromObjectByPath example_doc (PathArray [''items/v'', ''a/x'']) = Inr t'"
    "repr (cell_at st') r t'"
    by blast
  with g e have d: "repr (cell_at example_store') (SRef 12) (JArr [JNum 1, JNum 2])"
    by simp
  from t g a example_repr b p c e d show ?thesis
    by (simp only: simp_thms)
qed

text \<open>
  C9. When the keys traversed so far lead to \<^verbatim>\<open>null\<close> or \<^verbatim>\<open>undefined\<close>, the
  traversal of any further keys returns that same value at once; the accessor read on it
  through the optional chain is \<^verbatim>\<open>undefined\<close>, so the path contributes nothing:
  \<^verbatim>\<open>undefined\<close> for a single path, left out among several.
\<close>

theorem C9_null_short_circuit:
  "traverseBasedOnPath obj pre = Inr c \<and> (c = JNull \<or> c = JUndefined) \<longrightarrow>
     traverseBasedOnPath c post = Inr c \<and>
     traverseBasedOnPath obj (pre @ post) = Inr c \<and>
     opt_get c accessor = Inr JUndefined \<and>
     pathResult obj (pre @ post @ [accessor]) = Inr None \<and>
     (split_slash p = pre @ post @ [accessor] \<longrightarrow>
        getValuesFromObjectByPath obj (PathString p) = Inr JUndefined \<and>
        getValuesFromObjectByPath obj (PathArray (ps @ p # ps')) =
          getValuesFromObjectByPath obj (PathArray (ps @ ps')))"
proof (intro impI, elim conjE)
  assume c: "traverseBasedOnPath obj pre = Inr c" and nullish: "c = JNull \<or> c = JUndefined"
  from nullish have n: "c = JUndefined \<or> c = JNull" by blast
  have stop: "traverseBasedOnPath c post = Inr c"
    by (simp add: traverseBasedOnPath_def traverse_loop_nullish [OF n])
  with traverse_snoc [OF c, of post] have whole: "traverseBasedOnPath obj (pre @ post) = Inr c"
    by simp
  have look: "opt_get c accessor = Inr JUndefined"
    using n by (auto simp: opt_get_def)
  have "pathResult obj ((pre @ post) @ [accessor]) = Inr None"
    using pathResult_snoc [OF whole [unfolded traverseBasedOnPath_def] finalValue_nullish [OF n]]
    by simp
  then have none: "pathResult obj (pre @ post @ [accessor]) = Inr None"
    by simp
  have out: "getValuesFromObjectByPath obj (PathString p) = Inr JUndefined \<and>
        getValuesFromObjectByPath obj (PathArray (ps @ p # ps')) =
          getValuesFromObjectByPath obj (PathArray (ps @ ps'))"
    if p: "split_slash p = pre @ post @ [accessor]"
  proof -
    from none p have "pathResult obj (split_slash p) = Inr None" by simp
    from single_path [OF this] omitted_path [OF this] show ?thesis by simp
  qed
  from stop whole look none out
  show "traverseBasedOnPath c post = Inr c \<and>
     traverseBasedOnPath obj (pre @ post) = Inr c \<and>
     opt_get c accessor = Inr JUndefined \<and>
     pathResult obj (pre @ post @ [accessor]) = Inr None \<and>
     (split_slash p = pre @ post @ [accessor] \<longrightarrow>
        getValuesFromObjectByPath obj (PathString p) = Inr JUndefined \<and>
        getValuesFromObjectByPath obj (PathArray (ps @ p # ps')) =
          getValuesFromObjectByPath obj (PathArray (ps @ ps')))"
    by simp
qed

theorem C9_null_short_circuit_witness:
  "traverseBasedOnPath (JObj [(''a'', JNull), (''b'', JNum 2)]) [''a''] = Inr JNull
   \<and> traverseBasedOnPath (JObj [(''a'', JNull), (''b'', JNum 2)]) ([''a''] @ [''x'', ''y'']) = Inr JNull
   \<and> split_slash ''a/x/y/z'' = [''a''] @ [''x'', ''y''] @ [''z'']
   \<and> getValuesFromObjectByPath (JObj [(''a'', JNull), (''b'', JNum 2)]) (PathString ''a/x/y/z'') = Inr JUndefined
   \<and> getValuesFromObjectByPath (JObj [(''a'', JNull), (''b'', JNum 2)]) (PathArray ([''b''] @ ''a/x/y/z'' # [])) = Inr (JNum 2)"
proof -
  have t: "traverseBasedOnPath (JObj [(''a'', JNull), (''b'', JNum 2)]) [''a''] = Inr JNull"
    by (simp add: eval_defs)
  have s: "split_slash ''a/x/y/z'' = [''a''] @ [''x'', ''y''] @ [''z'']" by simp
  have b: "getValuesFromObjectByPath (JObj [(''a'', JNull), (''b'', JNum 2)]) (PathArray ([''b''] @ [])) = Inr (JNum 2)"
    by (simp add: eval_defs)
  note inst = C9_null_short_circuit [of "JObj [(''a'', JNull), (''b'', JNum 2)]"
      "[''a'']" JNull "[''x'', ''y'']" "''z''" "''a/x/y/z''" "[''b'']" "[]"]
  from inst t s b show ?thesis
    by simp
qed



end
